theory Spec2Isabelle
  imports Main "HOL-Library.Sublist"
begin

section \<open>Python string primitives used by extract_json.py\<close>

text \<open>
  Strings are lists of characters over the ASCII code points. The character classes are
  the ASCII parts of the classes Python uses: \<open>str.isspace\<close> (which \<open>str.strip\<close>,
  \<open>str.split\<close> and the regular expression \<open>\s\<close> share), \<open>\d\<close> and \<open>str.isdigit\<close>, and
  the range \<open>[A-Z]\<close>.
\<close>

abbreviation NL :: char where
  "NL \<equiv> CHR 0x0A"

definition isspace :: "char \<Rightarrow> bool" where
  "isspace c = (c \<in> set [CHR 0x09, CHR 0x0A, CHR 0x0B, CHR 0x0C, CHR 0x0D,
                          CHR 0x1C, CHR 0x1D, CHR 0x1E, CHR 0x1F, CHR 0x20])"

definition isdigit :: "char \<Rightarrow> bool" where
  "isdigit c = (c \<in> set ''0123456789'')"

definition isupper :: "char \<Rightarrow> bool" where
  "isupper c = (c \<in> set ''ABCDEFGHIJKLMNOPQRSTUVWXYZ'')"

text \<open>\<open>s.isdigit()\<close>: every character is a digit and there is at least one.\<close>

definition str_isdigit :: "string \<Rightarrow> bool" where
  "str_isdigit s = (s \<noteq> [] \<and> list_all isdigit s)"

text \<open>\<open>re.search(r"[A-Z]", s)\<close> as a truth value.\<close>

definition has_upper :: "string \<Rightarrow> bool" where
  "has_upper s = list_ex isupper s"

text \<open>\<open>s.upper()\<close> on ASCII text.\<close>

definition upper_char :: "char \<Rightarrow> char" where
  "upper_char c =
     (case map_of (zip ''abcdefghijklmnopqrstuvwxyz'' ''ABCDEFGHIJKLMNOPQRSTUVWXYZ'') c of
        Some u \<Rightarrow> u
      | None \<Rightarrow> c)"

definition upper :: "string \<Rightarrow> string" where
  "upper s = map upper_char s"

text \<open>\<open>s.strip()\<close>.\<close>

definition lstrip :: "string \<Rightarrow> string" where
  "lstrip s = dropWhile isspace s"

definition rstrip :: "string \<Rightarrow> string" where
  "rstrip s = rev (dropWhile isspace (rev s))"

definition strip :: "string \<Rightarrow> string" where
  "strip s = rstrip (lstrip s)"

text \<open>\<open>s.split()\<close> without argument: the maximal runs of non-whitespace characters.\<close>

function split_ws :: "string \<Rightarrow> string list" where
  "split_ws [] = []"
| "split_ws (c # cs) =
     (if isspace c then split_ws cs
      else takeWhile (\<lambda>x. \<not> isspace x) (c # cs) # split_ws (dropWhile (\<lambda>x. \<not> isspace x) cs))"
  by pat_completeness auto
termination
  by (relation "measure length") (auto simp: length_dropWhile_le less_Suc_eq_le)

text \<open>\<open>s.split(d)\<close> for a one-character separator: empty pieces are kept.\<close>

fun split_on :: "char \<Rightarrow> string \<Rightarrow> string list" where
  "split_on d [] = [[]]"
| "split_on d (c # cs) =
     (if c = d then [] # split_on d cs
      else (case split_on d cs of
              [] \<Rightarrow> [[c]]
            | l # ls \<Rightarrow> (c # l) # ls))"

text \<open>\<open>" ".join(parts)\<close>.\<close>

fun join_sp :: "string list \<Rightarrow> string" where
  "join_sp [] = []"
| "join_sp [p] = p"
| "join_sp (p # q # ps) = p @ '' '' @ join_sp (q # ps)"

text \<open>\<open>p in s\<close> and \<open>s.startswith(p)\<close>.\<close>

fun is_in :: "string \<Rightarrow> string \<Rightarrow> bool" where
  "is_in p [] = (p = [])"
| "is_in p (c # cs) = (prefix p (c # cs) \<or> is_in p cs)"

definition startswith :: "string \<Rightarrow> string \<Rightarrow> bool" where
  "startswith s p = prefix p s"

text \<open>\<open>s.count(p)\<close> for a non-empty \<open>p\<close>: occurrences counted left to right without overlap.\<close>

function count_sub :: "string \<Rightarrow> string \<Rightarrow> nat" where
  "count_sub p [] = 0"
| "count_sub p (c # cs) =
     (if p \<noteq> [] \<and> prefix p (c # cs) then Suc (count_sub p (drop (length p - 1) cs))
      else count_sub p cs)"
  by pat_completeness auto
termination
  by (relation "measure (\<lambda>(p, s). length s)") auto

text \<open>
  \<open>re.sub(r"\s+", " ", text)\<close>: every maximal run of whitespace becomes one space.
\<close>

function collapse_ws :: "string \<Rightarrow> string" where
  "collapse_ws [] = []"
| "collapse_ws (c # cs) =
     (if isspace c then CHR 0x20 # collapse_ws (dropWhile isspace cs)
      else c # collapse_ws cs)"
  by pat_completeness auto
termination
  by (relation "measure length") (auto simp: length_dropWhile_le less_Suc_eq_le)

definition clean_text :: "string option \<Rightarrow> string" where
  "clean_text text =
     (case text of
        None \<Rightarrow> []
      | Some t \<Rightarrow> if t = [] then [] else strip (collapse_ws t))"

section \<open>The regular expressions\<close>

text \<open>
  The dimension pattern \<open>\d+\(W\)x\d+\(H\)\<close> at the start of a string. \<open>\d+\<close> is greedy and
  the character after it must be an opening parenthesis, which is no digit, so giving digits
  back never helps: the pattern matches at a position exactly when a maximal non-empty run
  of digits is followed by \<open>(W)x\<close>, a second maximal non-empty run of digits and \<open>(H)\<close>.
  The result is the length of the match.
\<close>

definition match_dim :: "string \<Rightarrow> nat option" where
  "match_dim s =
     (let d1 = takeWhile isdigit s; r1 = dropWhile isdigit s in
      if d1 = [] \<or> \<not> prefix ''(W)x'' r1 then None
      else
        let r2 = drop 4 r1; d2 = takeWhile isdigit r2; r3 = dropWhile isdigit r2 in
        if d2 = [] \<or> \<not> prefix ''(H)'' r3 then None
        else Some (length d1 + 4 + length d2 + 3))"

text \<open>\<open>re.search(r"\d+\(W\)x\d+\(H\)", s)\<close>: the leftmost match, \<open>group(0)\<close> of it.\<close>

fun search_dim :: "string \<Rightarrow> string option" where
  "search_dim [] = None"
| "search_dim (c # cs) =
     (case match_dim (c # cs) of
        Some n \<Rightarrow> Some (take n (c # cs))
      | None \<Rightarrow> search_dim cs)"

definition has_dim :: "string \<Rightarrow> bool" where
  "has_dim s = (search_dim s \<noteq> None)"

text \<open>\<open>re.findall(r"\d+\(W\)x\d+\(H\)", s)\<close>: the matches from left to right, without overlap.\<close>

function findall_dim :: "string \<Rightarrow> string list" where
  "findall_dim [] = []"
| "findall_dim (c # cs) =
     (case match_dim (c # cs) of
        Some n \<Rightarrow> take n (c # cs) # findall_dim (drop (n - 1) cs)
      | None \<Rightarrow> findall_dim cs)"
  by pat_completeness auto
termination
  by (relation "measure length") auto

text \<open>
  A string that is a dimension and nothing else: the whole of it is matched by
  \<open>\d+\(W\)x\d+\(H\)\<close>.
\<close>

definition full_dim :: "string \<Rightarrow> bool" where
  "full_dim s = (match_dim s = Some (length s))"

text \<open>
  \<open>re.match(r"^\d+\(W\)x\d+\(H\)$", s)\<close>. In Python \<open>$\<close> matches at the end of the string
  and also just before a newline that ends the string.
\<close>

definition match_dim_anchored :: "string \<Rightarrow> bool" where
  "match_dim_anchored s =
     (case match_dim s of
        None \<Rightarrow> False
      | Some n \<Rightarrow> drop n s = [] \<or> drop n s = [NL])"

text \<open>
  \<open>re.match(r"^\d+[A-Z]+$", s)\<close>: a greedy run of digits, a greedy run of capitals, the end.
  Giving back a digit or a capital leaves that character in front of \<open>$\<close>, so only the
  maximal runs can match.
\<close>

definition match_digits_uppers :: "string \<Rightarrow> bool" where
  "match_digits_uppers s =
     (let d = takeWhile isdigit s; r = dropWhile isdigit s;
          u = takeWhile isupper r; r' = dropWhile isupper r in
      d \<noteq> [] \<and> u \<noteq> [] \<and> (r' = [] \<or> r' = [NL]))"

text \<open>The test \<open>tok.isdigit() or re.match(r"^\d+[A-Z]+$", tok)\<close> of parse_door_type.\<close>

definition is_variant :: "string \<Rightarrow> bool" where
  "is_variant tok = (str_isdigit tok \<or> match_digits_uppers tok)"

text \<open>
  \<open>re.match(r"^(\d+[A-Z]*)(?:\s|\(|$)", s)\<close>, returning \<open>group(1)\<close>: a greedy run of digits,
  a greedy run of capitals, then whitespace, an opening parenthesis or the end. After
  backtracking the next character would be a capital or a digit, so only the maximal runs
  can match.
\<close>

definition variant_match :: "string \<Rightarrow> string option" where
  "variant_match s =
     (let d = takeWhile isdigit s; r = dropWhile isdigit s;
          u = takeWhile isupper r; r' = dropWhile isupper r in
      if d \<noteq> [] \<and> (r' = [] \<or> r' = [NL] \<or> isspace (hd r') \<or> hd r' = CHR ''('')
      then Some (d @ u) else None)"

text \<open>
  \<open>re.match(r"^\d+[A-Z]\s+\d+[A-Z]$", s)\<close> of the legacy rule: digits, one capital,
  whitespace, digits, one capital, the end.
\<close>

definition match_two_variants :: "string \<Rightarrow> bool" where
  "match_two_variants s =
     (let d1 = takeWhile isdigit s; r1 = dropWhile isdigit s in
      d1 \<noteq> [] \<and> r1 \<noteq> [] \<and> isupper (hd r1) \<and>
      (let r2 = tl r1; w = takeWhile isspace r2; r3 = dropWhile isspace r2;
           d2 = takeWhile isdigit r3; r4 = dropWhile isdigit r3 in
       w \<noteq> [] \<and> d2 \<noteq> [] \<and> r4 \<noteq> [] \<and> isupper (hd r4) \<and> (tl r4 = [] \<or> tl r4 = [NL])))"

section \<open>parse_door_type\<close>

text \<open>
  \<open>[l.strip() for l in text.strip().split("\n") if l.strip()]\<close>: the trimmed, non-empty lines.
\<close>

definition lines_of :: "string \<Rightarrow> string list" where
  "lines_of text = filter (\<lambda>l. l \<noteq> []) (map strip (split_on NL (strip text)))"

text \<open>
  One turn of the loop over \<open>lines[1:]\<close>; the state is the pair (dimensions, variant).
\<close>

definition parse_line :: "string \<times> string \<Rightarrow> string \<Rightarrow> string \<times> string" where
  "parse_line st line =
     (let (dimensions, variant) = st; parts = split_ws line in
      if has_dim line then
        if length parts \<ge> 2 then
          let first_part = hd parts in
          if is_variant first_part then
            let joined = join_sp (tl parts) in
            (case search_dim joined of
               Some m \<Rightarrow> (m, first_part)
             | None \<Rightarrow> (joined, first_part))
          else if dimensions = [] then (line, variant)
          else (dimensions, variant)
        else if dimensions = [] then (line, variant)
        else (dimensions, variant)
      else if parts \<noteq> [] \<and> is_variant (hd parts) then
        if variant = [] then (dimensions, hd parts) else (dimensions, variant)
      else (dimensions, variant))"

text \<open>
  The result \<open>(None, None)\<close> is \<open>None\<close>; \<open>(final_code, dimensions)\<close> is \<open>Some\<close> of the pair.
  The first line is trimmed and not empty, so \<open>code.split()\<close> has a first element (lemma
  \<open>split_ws_nonempty\<close> below) and \<open>code_parts[0]\<close> cannot raise.
\<close>

definition parse_door_type :: "string \<Rightarrow> (string \<times> string) option" where
  "parse_door_type door_type_text =
     (if door_type_text = [] then None
      else
        let lines = lines_of door_type_text in
        if length lines = 0 then None
        else
          let code = hd lines in
          if \<not> has_upper code then None
          else if startswith code ''000(W)'' then None
          else if is_in ''PRECINCT'' code \<or> is_in ''DRAWING'' code \<or> is_in ''PROJECT'' code
          then None
          else
            let code_parts = split_ws code;
                clean_code = hd code_parts;
                embedded_dimension = (case List.find has_dim code_parts of
                                        Some part \<Rightarrow> part
                                      | None \<Rightarrow> []);
                (dimensions, variant) = foldl parse_line (embedded_dimension, []) (tl lines);
                final_code = (if variant \<noteq> [] then clean_code @ ''/'' @ variant
                              else clean_code)
            in Some (final_code, dimensions))"

section \<open>split_multi_door_column\<close>

record door =
  door_type :: string
  dimensions :: string
  fire_rating :: string
  description :: string
  location :: string
  remarks :: string

text \<open>
  The repair of a dimension that starts with \<open>000(W)x\<close>: the first token equal to the
  dimension that has a one-digit token in front of it gets that digit back.
\<close>

fun find_preceding_digit :: "string \<Rightarrow> string list \<Rightarrow> string option" where
  "find_preceding_digit dim (a # b # toks) =
     (if b = dim \<and> str_isdigit a \<and> length a = 1 then Some a
      else find_preceding_digit dim (b # toks))"
| "find_preceding_digit dim _ = None"

definition repair_dim :: "string list \<Rightarrow> string \<Rightarrow> string" where
  "repair_dim all_tokens dim =
     (if startswith dim ''000(W)x'' then
        (case find_preceding_digit dim all_tokens of
           Some d \<Rightarrow> d @ dim
         | None \<Rightarrow> dim)
      else dim)"

text \<open>
  The variant of one token, when it is accepted: \<open>group(1)\<close> of the match on \<open>part + " "\<close>,
  unless it is a plain number of three digits or more.
\<close>

definition token_variant :: "string \<Rightarrow> string option" where
  "token_variant part =
     (if isdigit (hd part) then
        (case variant_match (part @ '' '') of
           Some v \<Rightarrow> if length v \<le> 2 \<or> \<not> str_isdigit v then Some v else None
         | None \<Rightarrow> None)
      else None)"

text \<open>
  The inner loop of step 2 over the tokens of a candidate variant line; it leaves the loop
  as soon as \<open>num_doors\<close> variants are collected.
\<close>

fun collect_parts :: "nat \<Rightarrow> string list \<Rightarrow> string list \<Rightarrow> string list" where
  "collect_parts num_doors [] all_variants = all_variants"
| "collect_parts num_doors (part # parts) all_variants =
     (case token_variant part of
        Some v \<Rightarrow>
          (let all_variants' = all_variants @ [v] in
           if length all_variants' \<ge> num_doors then all_variants'
           else collect_parts num_doors parts all_variants')
      | None \<Rightarrow> collect_parts num_doors parts all_variants)"

text \<open>The outer loop of step 2 over \<open>lines[1:]\<close>.\<close>

fun collect_lines :: "nat \<Rightarrow> string list \<Rightarrow> string list \<Rightarrow> string list" where
  "collect_lines num_doors [] all_variants = all_variants"
| "collect_lines num_doors (line # lines) all_variants =
     (let parts = split_ws line;
          has_dimension = list_ex has_dim parts;
          all_variants' = (if \<not> has_dimension \<and> length parts \<ge> num_doors
                           then collect_parts num_doors parts all_variants
                           else all_variants)
      in if length all_variants' \<ge> num_doors then all_variants'
         else collect_lines num_doors lines all_variants')"

text \<open>
  Step 3, the scan of mixed lines. The test \<open>re.search(r"\(W\)x\(H\)", part)\<close> looks for the
  literal text \<open>(W)x(H)\<close>. The \<open>break\<close> leaves the loop over the tokens of one line only.
\<close>

fun mixed_parts :: "nat \<Rightarrow> string list \<Rightarrow> string list \<Rightarrow> string list" where
  "mixed_parts num_doors [] all_variants = all_variants"
| "mixed_parts num_doors (part # parts) all_variants =
     (if \<not> is_in ''(W)x(H)'' part then
        (case token_variant part of
           Some v \<Rightarrow>
             if v \<notin> set all_variants then
               (let all_variants' = all_variants @ [v] in
                if length all_variants' \<ge> num_doors then all_variants'
                else mixed_parts num_doors parts all_variants')
             else mixed_parts num_doors parts all_variants
         | None \<Rightarrow> mixed_parts num_doors parts all_variants)
      else mixed_parts num_doors parts all_variants)"

definition mixed_lines :: "nat \<Rightarrow> string list \<Rightarrow> string list \<Rightarrow> string list" where
  "mixed_lines num_doors lines all_variants =
     foldl (\<lambda>vs line. mixed_parts num_doors (split_ws line) vs) all_variants lines"

definition collect_variants :: "nat \<Rightarrow> string list \<Rightarrow> string list" where
  "collect_variants num_doors lines =
     (let all_variants = collect_lines num_doors (tl lines) [] in
      if length all_variants < num_doors then mixed_lines num_doors (tl lines) all_variants
      else all_variants)"

text \<open>\<open>xs[i] if i < len(xs) else ""\<close>.\<close>

definition nth_or_empty :: "string list \<Rightarrow> nat \<Rightarrow> string" where
  "nth_or_empty xs i = (if i < length xs then xs ! i else [])"

definition make_door ::
  "string \<Rightarrow> string \<Rightarrow> string \<Rightarrow> string \<Rightarrow> string \<Rightarrow> string \<Rightarrow> door" where
  "make_door dt dims fr descr loc rem =
     \<lparr>door_type = dt, dimensions = dims, fire_rating = fr, description = descr,
      location = loc, remarks = rem\<rparr>"

text \<open>The legacy rule for \<open>FD1 FD1\<close>, the code after \<open>if doors: return doors\<close>.\<close>

fun legacy_scan :: "string list \<Rightarrow> string list \<times> string list \<Rightarrow> string list \<times> string list"
  where
  "legacy_scan [] st = st"
| "legacy_scan (line # lines) (dimensions_list, variants_list) =
     (if is_in ''(W)x'' line then
        legacy_scan lines (dimensions_list @ findall_dim line, variants_list)
      else if match_two_variants line then
        legacy_scan lines (dimensions_list, split_ws line)
      else legacy_scan lines (dimensions_list, variants_list))"

definition legacy_fd1 ::
  "string \<Rightarrow> string \<Rightarrow> string \<Rightarrow> string \<Rightarrow> string \<Rightarrow> door list" where
  "legacy_fd1 door_type_text fr descr loc rem =
     (let lines = filter (\<lambda>l. l \<noteq> []) (map strip (split_on NL door_type_text));
          (dimensions_list, variants_list) = legacy_scan lines ([], []);
          num_doors = max (max (length dimensions_list) (length variants_list)) 2
      in map (\<lambda>i. let variant = nth_or_empty variants_list i;
                      dims = nth_or_empty dimensions_list i
                  in make_door (if variant \<noteq> [] then ''FD1/'' @ variant else ''FD1'')
                       dims fr descr loc rem)
           [0..<num_doors])"

text \<open>The door entries of steps 1 to 5, once \<open>num_doors\<close> is known.\<close>

definition main_doors ::
  "string \<Rightarrow> string list \<Rightarrow> string \<Rightarrow> nat \<Rightarrow> string \<Rightarrow> string \<Rightarrow> string \<Rightarrow> string \<Rightarrow> door list"
  where
  "main_doors door_type_text lines base_code num_doors fr descr loc rem =
     (let all_tokens = concat (map split_ws (tl lines));
          all_dimensions = map (repair_dim all_tokens) (findall_dim door_type_text);
          all_variants = collect_variants num_doors lines
      in map (\<lambda>i. let variant = nth_or_empty all_variants i;
                      dims = nth_or_empty all_dimensions i
                  in make_door (if variant \<noteq> [] then base_code @ ''/'' @ variant else base_code)
                       dims fr descr loc rem)
           [0..<num_doors])"

definition split_multi_door_column ::
  "string \<Rightarrow> string \<Rightarrow> string \<Rightarrow> string \<Rightarrow> string \<Rightarrow> door list" where
  "split_multi_door_column door_type_text fr descr loc rem =
     (let lines = lines_of door_type_text in
      if length lines < 2 then []
      else
        let first_line_parts = split_ws (hd lines) in
        if first_line_parts = [] then []
        else
          let base_code = hd first_line_parts;
              num_doors = count_list first_line_parts base_code in
          if num_doors < 2 then []
          else
            let doors = main_doors door_type_text lines base_code num_doors fr descr loc rem in
            if doors \<noteq> [] then doors
            else if is_in ''FD1 FD1'' door_type_text
            then legacy_fd1 door_type_text fr descr loc rem
            else doors)"

section \<open>is_valid_door_entry\<close>

definition invalid_patterns :: "string list" where
  "invalid_patterns =
     [''TENDER DRAWING'', ''DRAWING TITLE'', ''PRECINCT NAME'', ''PROJECT TITLE'', ''LOT NO'',
      ''MUKIM NO'', ''JOB TITLE'', ''DRAWN BY'', ''CHECKED BY'', ''SCALE'', ''DATE'', ''REV'',
      ''DESCRIPTION'']"

definition is_valid_door_entry :: "door \<Rightarrow> bool" where
  "is_valid_door_entry d =
     (let dt = strip (door_type d) in
      if list_ex (\<lambda>pattern. is_in pattern (upper dt)) invalid_patterns then False
      else if startswith dt ''000(W)x'' \<or> match_dim_anchored dt then False
      else if \<not> has_upper dt then False
      else True)"

section \<open>extract_doors_from_table\<close>

text \<open>
  A cell is a text or \<open>None\<close>, a row a list of cells, a table a list of rows, as the table
  source delivers them.
\<close>

type_synonym cell = "string option"
type_synonym row = "cell list"
type_synonym table = "row list"

text \<open>
  \<open>row and row[0]\<close> followed by \<open>row[0].strip()\<close>: the trimmed label of a row whose first
  cell holds a non-empty text.
\<close>

definition row_label :: "row \<Rightarrow> string option" where
  "row_label r =
     (case r of
        [] \<Rightarrow> None
      | c # _ \<Rightarrow> (case c of
                   None \<Rightarrow> None
                 | Some t \<Rightarrow> if t = [] then None else Some (strip t)))"

definition door_type_row_indices :: "table \<Rightarrow> nat list" where
  "door_type_row_indices t =
     filter (\<lambda>i. row_label (t ! i) = Some ''DOOR TYPE'') [0..<length t]"

definition section_end :: "table \<Rightarrow> nat list \<Rightarrow> nat \<Rightarrow> nat" where
  "section_end t idxs section_idx =
     (if section_idx + 1 < length idxs then idxs ! (section_idx + 1) else length t)"

record field_rows =
  fire_rating_row_idx :: "nat option"
  description_row_idx :: "nat option"
  location_row_idx :: "nat option"
  remarks_row_idx :: "nat option"

definition no_field_rows :: field_rows where
  "no_field_rows =
     \<lparr>fire_rating_row_idx = None, description_row_idx = None, location_row_idx = None,
      remarks_row_idx = None\<rparr>"

text \<open>The row indices that a section has recorded for its four fields.\<close>

definition recorded_rows :: "field_rows \<Rightarrow> nat set" where
  "recorded_rows f =
     set_option (fire_rating_row_idx f) \<union> set_option (description_row_idx f)
     \<union> set_option (location_row_idx f) \<union> set_option (remarks_row_idx f)"

text \<open>
  The loop \<open>for i in range(door_type_row_idx, section_end)\<close> over the labels of a section,
  left at a row labelled \<open>ELEVATION\<close>. The list holds the row indices still to visit, all of
  them below \<open>len(table)\<close>.
\<close>

fun scan_labels :: "table \<Rightarrow> nat list \<Rightarrow> field_rows \<Rightarrow> field_rows" where
  "scan_labels t [] f = f"
| "scan_labels t (i # rest) f =
     (case row_label (t ! i) of
        None \<Rightarrow> scan_labels t rest f
      | Some label \<Rightarrow>
          if label = ''FIRE-RATING'' \<or> label = ''FIRE RATING''
          then scan_labels t rest (f\<lparr>fire_rating_row_idx := Some i\<rparr>)
          else if label = ''DESCRIPTION''
          then scan_labels t rest (f\<lparr>description_row_idx := Some i\<rparr>)
          else if label = ''LOCATION''
          then scan_labels t rest (f\<lparr>location_row_idx := Some i\<rparr>)
          else if label = ''REMARKS''
          then scan_labels t rest (f\<lparr>remarks_row_idx := Some i\<rparr>)
          else if label = ''ELEVATION''
          then f
          else scan_labels t rest f)"

text \<open>
  The sections of a table: for every \<open>DOOR TYPE\<close> row its index, the end of the section and
  the field rows found between the two.
\<close>

definition resolve_section :: "table \<Rightarrow> nat list \<Rightarrow> nat \<Rightarrow> nat \<times> nat \<times> field_rows" where
  "resolve_section t idxs section_idx =
     (let door_type_row_idx = idxs ! section_idx;
          e = section_end t idxs section_idx
      in (door_type_row_idx, e, scan_labels t [door_type_row_idx..<e] no_field_rows))"

definition sections :: "table \<Rightarrow> (nat \<times> nat \<times> field_rows) list" where
  "sections t =
     (let idxs = door_type_row_indices t
      in map (resolve_section t idxs) [0..<length idxs])"

text \<open>\<open>table[idx] if idx is not None else []\<close>.\<close>

definition field_row :: "table \<Rightarrow> nat option \<Rightarrow> row" where
  "field_row t idx = (case idx of None \<Rightarrow> [] | Some i \<Rightarrow> t ! i)"

text \<open>
  \<open>clean_text(row[col_idx]) if col_idx < len(row) and row[col_idx] else ""\<close>.
\<close>

definition field_text :: "row \<Rightarrow> nat \<Rightarrow> string" where
  "field_text r col_idx =
     (if col_idx < length r \<and> r ! col_idx \<noteq> None \<and> r ! col_idx \<noteq> Some []
      then clean_text (r ! col_idx) else [])"

text \<open>
  The test of the continuation loop on \<open>next_text\<close>: not \<open>None\<close>, not empty, not blank, and
  the trimmed text matched by \<open>^\d+\(W\)x\d+\(H\)$\<close>.
\<close>

definition is_continuation :: "cell \<Rightarrow> bool" where
  "is_continuation next_text =
     (case next_text of
        None \<Rightarrow> False
      | Some t \<Rightarrow> t \<noteq> [] \<and> strip t \<noteq> [] \<and> match_dim_anchored (strip t))"

text \<open>
  The loop \<open>while next_col_idx < len(door_type_row) and next_col_idx < col_idx + 3\<close>, which
  returns the door type text, merged or not.
\<close>

function merge_continuation :: "row \<Rightarrow> nat \<Rightarrow> string \<Rightarrow> nat \<Rightarrow> string" where
  "merge_continuation door_type_row col_idx door_type_text next_col_idx =
     (if next_col_idx < length door_type_row \<and> next_col_idx < col_idx + 3 then
        (if is_continuation (door_type_row ! next_col_idx)
         then door_type_text @ '' '' @ the (door_type_row ! next_col_idx)
         else merge_continuation door_type_row col_idx door_type_text (next_col_idx + 1))
      else door_type_text)"
  by pat_completeness auto
termination
  by (relation "measure (\<lambda>(r, c, t, n). c + 3 - n)") auto

text \<open>
  The multi-door test: the first word occurs in \<open>door_type_text[len(first_word):]\<close>, or
  \<open>(W)x\<close> is counted more than once.
\<close>

definition has_multiple_doors :: "string \<Rightarrow> bool" where
  "has_multiple_doors door_type_text =
     (let first_word = (if split_ws door_type_text \<noteq> [] then hd (split_ws door_type_text)
                        else [])
      in (first_word \<noteq> [] \<and> is_in first_word (drop (length first_word) door_type_text))
         \<or> count_sub ''(W)x'' door_type_text > 1)"

text \<open>
  The body of the loop over the columns: the doors that one column contributes. The column
  is skipped when the cell is \<open>None\<close>, empty or blank, when it holds drawing metadata, and
  when \<open>door_code\<close> is \<open>None\<close> or empty (\<open>if not door_code: continue\<close>).
\<close>

definition column_doors :: "table \<Rightarrow> nat \<times> nat \<times> field_rows \<Rightarrow> nat \<Rightarrow> door list" where
  "column_doors t sec col_idx =
     (let (door_type_row_idx, e, f) = sec;
          door_type_row = t ! door_type_row_idx
      in case door_type_row ! col_idx of
           None \<Rightarrow> []
         | Some cell_text \<Rightarrow>
             if cell_text = [] \<or> strip cell_text = [] then []
             else if is_in ''TENDER DRAWING'' cell_text \<or> is_in ''DRAWING TITLE'' cell_text
             then []
             else
               let door_type_text =
                     merge_continuation door_type_row col_idx cell_text (col_idx + 1)
               in (case parse_door_type door_type_text of
                     None \<Rightarrow> []
                   | Some (door_code, dims) \<Rightarrow>
                       if door_code = [] then []
                       else
                         let fr = field_text (field_row t (fire_rating_row_idx f)) col_idx;
                             descr = field_text (field_row t (description_row_idx f)) col_idx;
                             loc = field_text (field_row t (location_row_idx f)) col_idx;
                             rem = field_text (field_row t (remarks_row_idx f)) col_idx
                         in if has_multiple_doors door_type_text
                            then split_multi_door_column door_type_text fr descr loc rem
                            else [make_door door_code dims fr descr loc rem]))"

definition section_doors :: "table \<Rightarrow> nat \<times> nat \<times> field_rows \<Rightarrow> door list" where
  "section_doors t sec =
     concat (map (column_doors t sec) [1..<length (t ! fst sec)])"

definition extract_doors_from_table :: "table \<Rightarrow> door list" where
  "extract_doors_from_table t =
     (if length t < 2 then []
      else if door_type_row_indices t = [] then []
      else concat (map (section_doors t) (sections t)))"

section \<open>process_page and the loop over the pages\<close>

text \<open>
  The table loop of process_page runs inside one \<open>try\<close> block. A table whose extraction or
  parsing raises is \<open>Inl\<close> of the exception; \<open>page.extract_tables()\<close> raising for the whole page
  is \<open>Inl\<close> at the level of the page. The \<open>except\<close> branch prints the exception and falls
  through to \<open>return doors\<close>, so the doors appended before the exception are returned.
\<close>

datatype exn = Exception

type_synonym page = "exn + (exn + table) list"

definition valid_doors :: "table \<Rightarrow> door list" where
  "valid_doors t = filter is_valid_door_entry (extract_doors_from_table t)"

fun table_loop :: "(exn + table) list \<Rightarrow> door list \<Rightarrow> door list" where
  "table_loop [] doors = doors"
| "table_loop (Inl e # tables) doors = doors"
| "table_loop (Inr t # tables) doors = table_loop tables (doors @ valid_doors t)"

definition process_page :: "page \<Rightarrow> door list" where
  "process_page p =
     (case p of
        Inl e \<Rightarrow> []
      | Inr tables \<Rightarrow> if tables = [] then [] else table_loop tables [])"

text \<open>The loop of main over the pages: \<open>all_doors.extend(page_doors)\<close>.\<close>

definition process_pages :: "page list \<Rightarrow> door list" where
  "process_pages pages = concat (map process_page pages)"

section \<open>Facts about the string primitives\<close>

lemma is_in_sublist: "is_in p s \<longleftrightarrow> sublist p s"
  by (induction s) (auto simp: sublist_Cons_right)

lemma isspace_upper_char: "isspace (upper_char c) = isspace c"
proof (cases "map_of (zip ''abcdefghijklmnopqrstuvwxyz'' ''ABCDEFGHIJKLMNOPQRSTUVWXYZ'') c")
  case None
  then show ?thesis by (simp add: upper_char_def)
next
  case (Some u)
  then have "(c, u) \<in> set (zip ''abcdefghijklmnopqrstuvwxyz'' ''ABCDEFGHIJKLMNOPQRSTUVWXYZ'')"
    by (rule map_of_SomeD)
  then have "\<not> isspace c \<and> \<not> isspace u"
    by (auto simp: isspace_def)
  then show ?thesis using Some by (simp add: upper_char_def)
qed

lemma digit_not_space: "isdigit c \<Longrightarrow> \<not> isspace c"
  by (auto simp: isdigit_def isspace_def)

lemma strip_Nil: "strip [] = []"
  by (simp add: strip_def lstrip_def rstrip_def)

lemma rstrip_decomp:
  "\<exists>b. s = rstrip s @ b \<and> (\<forall>c\<in>set b. isspace c)"
proof -
  have "rev (dropWhile isspace (rev s)) @ rev (takeWhile isspace (rev s)) =
          rev (takeWhile isspace (rev s) @ dropWhile isspace (rev s))"
    by (simp only: rev_append)
  also have "\<dots> = s"
    by (simp only: takeWhile_dropWhile_id rev_rev_ident)
  finally have "s = rstrip s @ rev (takeWhile isspace (rev s))"
    by (simp add: rstrip_def)
  moreover have "\<forall>c\<in>set (rev (takeWhile isspace (rev s))). isspace c"
    by (auto dest: set_takeWhileD)
  ultimately show ?thesis by blast
qed

lemma strip_decomp:
  "\<exists>a b. s = a @ strip s @ b \<and> (\<forall>c\<in>set a. isspace c) \<and> (\<forall>c\<in>set b. isspace c)"
proof -
  obtain b where b: "lstrip s = rstrip (lstrip s) @ b" "\<forall>c\<in>set b. isspace c"
    using rstrip_decomp [of "lstrip s"] by blast
  have "s = takeWhile isspace s @ lstrip s"
    by (simp add: lstrip_def)
  then have "s = takeWhile isspace s @ strip s @ b"
    using b(1) by (simp add: strip_def)
  moreover have "\<forall>c\<in>set (takeWhile isspace s). isspace c"
    by (auto dest: set_takeWhileD)
  ultimately show ?thesis using b(2) by blast
qed

lemma set_strip_subset: "set (strip s) \<subseteq> set s"
proof -
  obtain a b where "s = a @ strip s @ b"
    using strip_decomp [of s] by blast
  then have "set s = set a \<union> set (strip s) \<union> set b"
    by (metis set_append sup_assoc)
  then show ?thesis by blast
qed

lemma rstrip_last: "rstrip s \<noteq> [] \<Longrightarrow> \<not> isspace (last (rstrip s))"
proof -
  assume ne: "rstrip s \<noteq> []"
  then have "dropWhile isspace (rev s) \<noteq> []"
    by (simp add: rstrip_def)
  then have "\<not> isspace (hd (dropWhile isspace (rev s)))"
    by (rule hd_dropWhile)
  moreover have "last (rstrip s) = hd (dropWhile isspace (rev s))"
    using ne by (simp add: rstrip_def last_rev)
  ultimately show ?thesis by simp
qed

lemma rstrip_hd: "rstrip s \<noteq> [] \<Longrightarrow> hd (rstrip s) = hd s"
proof -
  assume ne: "rstrip s \<noteq> []"
  obtain b where "s = rstrip s @ b"
    using rstrip_decomp [of s] by blast
  then have "hd s = hd (rstrip s @ b)" by simp
  then show ?thesis using ne by simp
qed

lemma strip_ends:
  assumes "strip s \<noteq> []"
  shows "\<not> isspace (hd (strip s))" and "\<not> isspace (last (strip s))"
proof -
  have ne: "rstrip (lstrip s) \<noteq> []"
    using assms by (simp add: strip_def)
  then have l: "lstrip s \<noteq> []"
    by (auto simp: rstrip_def)
  then have "\<not> isspace (hd (lstrip s))"
    unfolding lstrip_def by (rule hd_dropWhile)
  then show "\<not> isspace (hd (strip s))"
    using rstrip_hd [OF ne] by (simp add: strip_def)
  show "\<not> isspace (last (strip s))"
    using rstrip_last [OF ne] by (simp add: strip_def)
qed

lemma strip_id:
  assumes "s \<noteq> []" and "\<not> isspace (hd s)" and "\<not> isspace (last s)"
  shows "strip s = s"
proof -
  have "lstrip s = s"
    using assms(1,2) by (cases s) (simp_all add: lstrip_def)
  moreover have "rstrip s = s"
  proof -
    have "rev s \<noteq> []" and "\<not> isspace (hd (rev s))"
      using assms(1,3) by (simp_all add: hd_rev)
    then have "dropWhile isspace (rev s) = rev s"
      by (cases "rev s") simp_all
    then show ?thesis by (simp add: rstrip_def)
  qed
  ultimately show ?thesis by (simp add: strip_def)
qed

lemma sublist_drop_space_front:
  assumes "sublist m (a @ s)" and "m \<noteq> []" and "\<not> isspace (hd m)"
    and "\<forall>c\<in>set a. isspace c"
  shows "sublist m s"
  using assms
proof (induction a)
  case Nil
  then show ?case by simp
next
  case (Cons x a)
  from Cons.prems(1) have "prefix m (x # a @ s) \<or> sublist m (a @ s)"
    by (simp add: sublist_Cons_right)
  moreover have "\<not> prefix m (x # a @ s)"
  proof
    assume "prefix m (x # a @ s)"
    then have "hd m = x"
      using Cons.prems(2) by (cases m) simp_all
    then show False
      using Cons.prems(3,4) by simp
  qed
  ultimately have "sublist m (a @ s)" by blast
  then show ?case
    using Cons.IH Cons.prems by simp
qed

lemma sublist_drop_space_back:
  assumes "sublist m (s @ b)" and "m \<noteq> []" and "\<not> isspace (last m)"
    and "\<forall>c\<in>set b. isspace c"
  shows "sublist m s"
proof -
  have "sublist (rev m) (rev b @ rev s)"
    using assms(1) sublist_rev [of m "s @ b"] by simp
  moreover have "rev m \<noteq> []" and "\<not> isspace (hd (rev m))"
    using assms(2,3) by (simp_all add: hd_rev)
  moreover have "\<forall>c\<in>set (rev b). isspace c"
    using assms(4) by simp
  ultimately have "sublist (rev m) (rev s)"
    using sublist_drop_space_front [of "rev m" "rev b" "rev s"] by blast
  then show ?thesis by simp
qed

lemma is_in_upper_strip:
  assumes "is_in m (upper s)" and "m \<noteq> []" and "\<not> isspace (hd m)" and "\<not> isspace (last m)"
  shows "is_in m (upper (strip s))"
proof -
  obtain a b where s: "s = a @ strip s @ b"
    and a: "\<forall>c\<in>set a. isspace c" and b: "\<forall>c\<in>set b. isspace c"
    using strip_decomp [of s] by blast
  have "upper s = upper a @ upper (strip s) @ upper b"
    unfolding upper_def by (subst s) simp
  then have 1: "sublist m (upper a @ upper (strip s) @ upper b)"
    using assms(1) by (simp add: is_in_sublist)
  have ua: "\<forall>c\<in>set (upper a). isspace c"
    using a by (auto simp: upper_def isspace_upper_char)
  have ub: "\<forall>c\<in>set (upper b). isspace c"
    using b by (auto simp: upper_def isspace_upper_char)
  have "sublist m (upper (strip s) @ upper b)"
    using sublist_drop_space_front [OF 1 assms(2,3) ua] .
  then have "sublist m (upper (strip s))"
    using sublist_drop_space_back [OF _ assms(2,4) ub] by blast
  then show ?thesis by (simp add: is_in_sublist)
qed

lemma startswith_strip:
  assumes "startswith s p" and "p \<noteq> []" and "\<not> isspace (hd p)" and "\<not> isspace (last p)"
  shows "startswith (strip s) p"
proof -
  obtain r where s: "s = p @ r"
    using assms(1) by (auto simp: startswith_def prefix_def)
  have "s \<noteq> []" and "\<not> isspace (hd s)"
    using s assms(2,3) by simp_all
  then have l: "lstrip s = s"
    by (cases s) (simp_all add: lstrip_def)
  have "dropWhile isspace (rev r @ rev p) =
          (if \<forall>c\<in>set (rev r). isspace c then dropWhile isspace (rev p)
           else dropWhile isspace (rev r) @ rev p)"
    by (rule dropWhile_append)
  moreover have "dropWhile isspace (rev p) = rev p"
    using assms(2,4) by (cases "rev p") (simp_all add: hd_rev [symmetric])
  ultimately have "\<exists>q. dropWhile isspace (rev r @ rev p) = q @ rev p"
    by auto
  then obtain q where "dropWhile isspace (rev s) = q @ rev p"
    using s by auto
  then have "rstrip s = p @ rev q"
    by (simp add: rstrip_def)
  then show ?thesis
    using l by (simp add: strip_def startswith_def)
qed

lemma has_upper_strip: "has_upper (strip s) \<Longrightarrow> has_upper s"
  using set_strip_subset [of s] by (auto simp: has_upper_def list_ex_iff)

lemma split_ws_first:
  "s \<noteq> [] \<Longrightarrow> \<not> isspace (hd s) \<Longrightarrow>
   split_ws s \<noteq> [] \<and> hd (split_ws s) = takeWhile (\<lambda>x. \<not> isspace x) s"
  by (cases s) simp_all

lemma prefix_takeWhile_iff:
  "\<forall>c\<in>set p. Q c \<Longrightarrow> prefix p (takeWhile Q l) \<longleftrightarrow> prefix p l"
proof (induction p arbitrary: l)
  case Nil
  show ?case by simp
next
  case (Cons x p)
  show ?case
  proof (cases l)
    case Nil
    then show ?thesis by simp
  next
    case (Cons y l')
    then show ?thesis
      using Cons.IH [of l'] Cons.prems by auto
  qed
qed

lemma lines_of_elem:
  assumes "l \<in> set (lines_of text)"
  shows "l \<noteq> []" and "\<not> isspace (hd l)" and "\<not> isspace (last l)"
proof -
  from assms obtain u where u: "l = strip u" and ne: "l \<noteq> []"
    by (auto simp: lines_of_def)
  show "l \<noteq> []" by (rule ne)
  show "\<not> isspace (hd l)" using strip_ends(1) [of u] u ne by simp
  show "\<not> isspace (last l)" using strip_ends(2) [of u] u ne by simp
qed

lemma split_ws_nonempty:
  "l \<in> set (lines_of text) \<Longrightarrow> split_ws l \<noteq> []"
  using lines_of_elem(1,2) split_ws_first by blast

lemma lines_of_Nil: "lines_of [] = []"
  by (simp add: lines_of_def strip_Nil)

section \<open>Facts about the dimension pattern\<close>

lemma match_dim_SomeD:
  assumes "match_dim s = Some n"
  shows "\<exists>w h r. s = w @ ''(W)x'' @ h @ ''(H)'' @ r \<and> str_isdigit w \<and> str_isdigit h
           \<and> n = length w + 4 + length h + 3"
proof -
  let ?d1 = "takeWhile isdigit s"
  let ?r1 = "dropWhile isdigit s"
  have d1: "?d1 \<noteq> []" and p1: "prefix ''(W)x'' ?r1"
    using assms by (auto simp: match_dim_def Let_def split: if_splits)
  obtain r2 where r2: "?r1 = ''(W)x'' @ r2"
    using p1 by (auto simp: prefix_def)
  let ?d2 = "takeWhile isdigit r2"
  let ?r3 = "dropWhile isdigit r2"
  have dr: "drop 4 ?r1 = r2"
    by (simp add: r2)
  have d2: "?d2 \<noteq> []" and p2: "prefix ''(H)'' ?r3"
    and n: "n = length ?d1 + 4 + length ?d2 + 3"
    using assms d1 p1 unfolding match_dim_def Let_def dr
    by (auto split: if_splits)
  obtain r4 where r4: "?r3 = ''(H)'' @ r4"
    using p2 by (auto simp: prefix_def)
  have "s = ?d1 @ ?r1" by simp
  also have "?r1 = ''(W)x'' @ ?d2 @ ?r3" by (simp add: r2)
  also have "?r3 = ''(H)'' @ r4" by (rule r4)
  finally have "s = ?d1 @ ''(W)x'' @ ?d2 @ ''(H)'' @ r4" .
  moreover have "str_isdigit ?d1"
    using d1 by (auto simp: str_isdigit_def list_all_iff dest: set_takeWhileD)
  moreover have "str_isdigit ?d2"
    using d2 by (auto simp: str_isdigit_def list_all_iff dest: set_takeWhileD)
  ultimately show ?thesis using n by blast
qed

lemma takeWhile_digits_paren:
  assumes "list_all isdigit w"
  shows "takeWhile isdigit (w @ CHR ''('' # r) = w"
    and "dropWhile isdigit (w @ CHR ''('' # r) = CHR ''('' # r"
proof -
  have nd: "\<not> isdigit CHR ''(''" by (simp add: isdigit_def)
  have all: "\<forall>c\<in>set w. isdigit c" using assms by (simp add: list_all_iff)
  show "takeWhile isdigit (w @ CHR ''('' # r) = w"
    using all nd by simp
  show "dropWhile isdigit (w @ CHR ''('' # r) = CHR ''('' # r"
    using all nd by simp
qed

lemma match_dim_SomeI:
  assumes "str_isdigit w" and "str_isdigit h"
  shows "match_dim (w @ ''(W)x'' @ h @ ''(H)'' @ r) = Some (length w + 4 + length h + 3)"
proof -
  have w: "w \<noteq> []" "list_all isdigit w" and h: "h \<noteq> []" "list_all isdigit h"
    using assms by (simp_all add: str_isdigit_def)
  have 1: "takeWhile isdigit (w @ ''(W)x'' @ h @ ''(H)'' @ r) = w"
    and 2: "dropWhile isdigit (w @ ''(W)x'' @ h @ ''(H)'' @ r) = ''(W)x'' @ h @ ''(H)'' @ r"
    using takeWhile_digits_paren [OF w(2), of "''W)x'' @ h @ ''(H)'' @ r"] by simp_all
  have 3: "takeWhile isdigit (h @ ''(H)'' @ r) = h"
    and 4: "dropWhile isdigit (h @ ''(H)'' @ r) = ''(H)'' @ r"
    using takeWhile_digits_paren [OF h(2), of "''H)'' @ r"] by simp_all
  show ?thesis
    unfolding match_dim_def Let_def 1 2
    using w(1) h(1) 3 4 by simp
qed

lemma match_dim_le: "match_dim s = Some n \<Longrightarrow> n \<le> length s"
  by (auto dest!: match_dim_SomeD)

lemma match_dim_pos: "match_dim s = Some n \<Longrightarrow> 0 < n"
  by (auto dest!: match_dim_SomeD)

text \<open>
  \<open>full_dim\<close> says what it should: the string is digits, \<open>(W)x\<close>, digits, \<open>(H)\<close> and
  nothing else.
\<close>

lemma full_dim_iff:
  "full_dim s \<longleftrightarrow>
     (\<exists>w h. str_isdigit w \<and> str_isdigit h \<and> s = w @ ''(W)x'' @ h @ ''(H)'')"
proof
  assume "full_dim s"
  then have "match_dim s = Some (length s)" by (simp add: full_dim_def)
  then obtain w h r where s: "s = w @ ''(W)x'' @ h @ ''(H)'' @ r"
    and d: "str_isdigit w" "str_isdigit h"
    and n: "length s = length w + 4 + length h + 3"
    using match_dim_SomeD by blast
  have "length s = length w + 4 + length h + 3 + length r"
    by (subst s) simp
  then have "r = []" using n by simp
  then show "\<exists>w h. str_isdigit w \<and> str_isdigit h \<and> s = w @ ''(W)x'' @ h @ ''(H)''"
    using s d by auto
next
  assume "\<exists>w h. str_isdigit w \<and> str_isdigit h \<and> s = w @ ''(W)x'' @ h @ ''(H)''"
  then obtain w h where d: "str_isdigit w" "str_isdigit h"
    and s: "s = w @ ''(W)x'' @ h @ ''(H)''"
    by blast
  have "match_dim (w @ ''(W)x'' @ h @ ''(H)'' @ []) = Some (length w + 4 + length h + 3)"
    using d by (rule match_dim_SomeI)
  then show "full_dim s"
    by (simp add: full_dim_def s)
qed

lemma full_dim_strip: "full_dim s \<Longrightarrow> strip s = s"
proof -
  assume "full_dim s"
  then obtain w h where d: "str_isdigit w" "str_isdigit h"
    and s: "s = w @ ''(W)x'' @ h @ ''(H)''"
    using full_dim_iff by blast
  have "w \<noteq> []" and "isdigit (hd w)"
    using d(1) by (cases w; simp add: str_isdigit_def)+
  then have "\<not> isspace (hd s)"
    using s digit_not_space by simp
  moreover have "last s = CHR '')''"
    by (simp add: s)
  then have "\<not> isspace (last s)"
    by (simp add: isspace_def)
  moreover have "s \<noteq> []" by (simp add: s)
  ultimately show "strip s = s" by (simp add: strip_id)
qed

lemma full_dim_anchored: "full_dim s \<Longrightarrow> match_dim_anchored s"
  by (simp add: full_dim_def match_dim_anchored_def)

text \<open>
  On a text whose last character is no newline, \<open>^\d+\(W\)x\d+\(H\)$\<close> matches exactly the
  texts that are a dimension and nothing else.
\<close>

lemma anchored_full_dim:
  assumes "match_dim_anchored s" and "s \<noteq> []" and "\<not> isspace (last s)"
  shows "full_dim s"
proof -
  obtain n where n: "match_dim s = Some n" and d: "drop n s = [] \<or> drop n s = [NL]"
    using assms(1) by (auto simp: match_dim_anchored_def split: option.splits)
  have le: "n \<le> length s" using n by (rule match_dim_le)
  have "drop n s \<noteq> [NL]"
  proof
    assume e: "drop n s = [NL]"
    then have "last s = last (drop n s)"
      by (metis append_take_drop_id last_appendR list.distinct(1))
    then have "last s = NL" using e by simp
    then show False using assms(3) by (simp add: isspace_def)
  qed
  then have "drop n s = []" using d by blast
  then have "n = length s" using le by simp
  then show ?thesis using n by (simp add: full_dim_def)
qed

lemma anchored_strip_iff: "match_dim_anchored (strip t) \<longleftrightarrow> full_dim (strip t)"
proof (cases "strip t = []")
  case True
  then show ?thesis
    by (simp add: match_dim_anchored_def full_dim_def match_dim_def)
next
  case False
  then show ?thesis
    using anchored_full_dim [of "strip t"] strip_ends(2) [of t] full_dim_anchored
    by blast
qed

section \<open>Facts about the tokens, the search and the splitter\<close>

lemma split_ws_tokens_nonempty: "[] \<notin> set (split_ws s)"
  by (induction s rule: split_ws.induct) auto

lemma parse_door_type_code_nonempty:
  assumes "parse_door_type text = Some (c, d)"
  shows "c \<noteq> []"
proof -
  let ?l = "hd (lines_of text)"
  have "lines_of text \<noteq> []"
    using assms by (auto simp: parse_door_type_def split: if_splits)
  then have "?l \<in> set (lines_of text)"
    by simp
  then have "?l \<noteq> []" and "\<not> isspace (hd ?l)"
    by (rule lines_of_elem)+
  then have "hd (split_ws ?l) = takeWhile (\<lambda>x. \<not> isspace x) ?l"
    and "takeWhile (\<lambda>x. \<not> isspace x) ?l \<noteq> []"
    using split_ws_first by (blast, cases ?l) simp_all
  then have "hd (split_ws ?l) \<noteq> []"
    by simp
  then show ?thesis
    using assms
    by (auto simp: parse_door_type_def Let_def split: if_splits prod.splits)
qed

lemma match_dim_take_full:
  assumes "match_dim s = Some n"
  shows "full_dim (take n s)"
proof -
  obtain w h r where s: "s = w @ ''(W)x'' @ h @ ''(H)'' @ r"
    and d: "str_isdigit w" "str_isdigit h"
    and n: "n = length w + 4 + length h + 3"
    using match_dim_SomeD [OF assms] by blast
  have len: "n = length (w @ ''(W)x'' @ h @ ''(H)'')"
    using n by simp
  have "take (length a) (a @ r) = a" for a :: string
    by simp
  then have "take n ((w @ ''(W)x'' @ h @ ''(H)'') @ r) = w @ ''(W)x'' @ h @ ''(H)''"
    unfolding len .
  then have "take n s = w @ ''(W)x'' @ h @ ''(H)''"
    using s by simp
  then show ?thesis
    using d full_dim_iff by blast
qed

text \<open>
  \<open>search_dim\<close> finds a match exactly when the text holds digits, \<open>(W)x\<close>, digits and \<open>(H)\<close>
  somewhere, and what it returns is a dimension and nothing else.
\<close>

lemma search_dim_SomeD:
  "search_dim s = Some m \<Longrightarrow> full_dim m \<and> (\<exists>p r. s = p @ m @ r)"
proof (induction s)
  case Nil
  then show ?case by simp
next
  case (Cons c cs)
  show ?case
  proof (cases "match_dim (c # cs)")
    case None
    then have "search_dim cs = Some m"
      using Cons.prems by simp
    then obtain p r where "full_dim m" and "cs = p @ m @ r"
      using Cons.IH by blast
    then have "c # cs = (c # p) @ m @ r"
      by simp
    then show ?thesis
      using \<open>full_dim m\<close> by blast
  next
    case (Some n)
    then have m: "m = take n (c # cs)"
      using Cons.prems by simp
    then have "c # cs = [] @ m @ drop n (c # cs)"
      by simp
    then show ?thesis
      using m match_dim_take_full [OF Some] by blast
  qed
qed

lemma search_dim_SomeI:
  assumes "str_isdigit w" and "str_isdigit h"
  shows "search_dim (p @ w @ ''(W)x'' @ h @ ''(H)'' @ r) \<noteq> None"
proof (induction p)
  case Nil
  obtain x w' where w: "w = x # w'"
    using assms(1) by (cases w) (simp_all add: str_isdigit_def)
  have "match_dim (w @ ''(W)x'' @ h @ ''(H)'' @ r) = Some (length w + 4 + length h + 3)"
    using assms by (rule match_dim_SomeI)
  then show ?case
    unfolding w by simp
next
  case (Cons c p)
  then show ?case
    by (cases "match_dim (c # p @ w @ ''(W)x'' @ h @ ''(H)'' @ r)") simp_all
qed

lemma has_dim_iff:
  "has_dim s \<longleftrightarrow>
     (\<exists>p w h r. str_isdigit w \<and> str_isdigit h \<and> s = p @ w @ ''(W)x'' @ h @ ''(H)'' @ r)"
proof
  assume "has_dim s"
  then obtain m where "search_dim s = Some m"
    by (auto simp: has_dim_def)
  then obtain p r where "full_dim m" and s: "s = p @ m @ r"
    using search_dim_SomeD by blast
  then obtain w h where "str_isdigit w" "str_isdigit h" "m = w @ ''(W)x'' @ h @ ''(H)''"
    using full_dim_iff by blast
  then show "\<exists>p w h r. str_isdigit w \<and> str_isdigit h \<and> s = p @ w @ ''(W)x'' @ h @ ''(H)'' @ r"
    using s by auto
next
  assume "\<exists>p w h r. str_isdigit w \<and> str_isdigit h \<and> s = p @ w @ ''(W)x'' @ h @ ''(H)'' @ r"
  then show "has_dim s"
    using search_dim_SomeI by (auto simp: has_dim_def)
qed

lemma findall_dim_full: "m \<in> set (findall_dim s) \<Longrightarrow> full_dim m"
proof (induction s rule: findall_dim.induct)
  case 1
  then show ?case by simp
next
  case (2 c cs)
  show ?case
  proof (cases "match_dim (c # cs)")
    case None
    then show ?thesis using 2 by simp
  next
    case (Some n)
    then show ?thesis
      using 2 match_dim_take_full [OF Some] by auto
  qed
qed

lemma find_preceding_digit_digit:
  "find_preceding_digit dim toks = Some a \<Longrightarrow> str_isdigit a"
  by (induction dim toks rule: find_preceding_digit.induct) (auto split: if_splits)

lemma repair_dim_full:
  assumes "full_dim dim"
  shows "full_dim (repair_dim toks dim)"
proof (cases "startswith dim ''000(W)x''")
  case False
  then show ?thesis using assms by (simp add: repair_dim_def)
next
  case True
  show ?thesis
  proof (cases "find_preceding_digit dim toks")
    case None
    then show ?thesis using assms True by (simp add: repair_dim_def)
  next
    case (Some a)
    then have a: "str_isdigit a"
      by (rule find_preceding_digit_digit)
    obtain w h where d: "str_isdigit w" "str_isdigit h" and dim: "dim = w @ ''(W)x'' @ h @ ''(H)''"
      using assms full_dim_iff by blast
    have "str_isdigit (a @ w)"
      using a d(1) by (simp add: str_isdigit_def)
    moreover have "a @ dim = (a @ w) @ ''(W)x'' @ h @ ''(H)''"
      by (simp add: dim)
    ultimately have "full_dim (a @ dim)"
      using d(2) full_dim_iff by blast
    then show ?thesis
      using True Some by (simp add: repair_dim_def)
  qed
qed

lemma nth_or_empty_cases: "nth_or_empty xs i = [] \<or> nth_or_empty xs i \<in> set xs"
  by (simp add: nth_or_empty_def)

lemma main_doors_dimensions:
  assumes "d \<in> set (main_doors text lines base_code n fr descr loc rem)"
  shows "dimensions d = [] \<or> full_dim (dimensions d)"
proof -
  let ?dims = "map (repair_dim (concat (map split_ws (tl lines)))) (findall_dim text)"
  obtain i where "dimensions d = nth_or_empty ?dims i"
    using assms by (auto simp: main_doors_def Let_def make_door_def)
  then have "dimensions d = [] \<or> dimensions d \<in> set ?dims"
    using nth_or_empty_cases [of ?dims i] by simp
  then show ?thesis
    using findall_dim_full repair_dim_full by auto
qed

text \<open>
  split_multi_door_column returns before the legacy rule or returns the doors of steps 1 to
  5, which are not empty once \<open>num_doors\<close> is 2 or more: no text reaches the legacy rule.
\<close>

lemma split_multi_door_column_main_only:
  "split_multi_door_column text fr descr loc rem =
     (let lines = lines_of text;
          first_line_parts = split_ws (hd lines);
          num_doors = count_list first_line_parts (hd first_line_parts)
      in if length lines < 2 \<or> num_doors < 2 then []
         else main_doors text lines (hd first_line_parts) num_doors fr descr loc rem)"
proof -
  have "main_doors text lines base_code n fr descr loc rem \<noteq> []" if "2 \<le> n"
    for lines base_code n
    using that by (simp add: main_doors_def Let_def)
  then show ?thesis
    by (auto simp: split_multi_door_column_def Let_def not_less)
qed

text \<open>
  On the multi-door path the dimensions of every record are empty or a dimension and
  nothing else.
\<close>

lemma split_multi_door_column_dimensions:
  assumes "d \<in> set (split_multi_door_column text fr descr loc rem)"
  shows "dimensions d = [] \<or> full_dim (dimensions d)"
  using assms main_doors_dimensions
  by (auto simp: split_multi_door_column_main_only Let_def split: if_splits)

section \<open>Tables with fewer than two rows\<close>

text \<open>
  C10. For every table with fewer than 2 rows, extract_doors_from_table returns the empty
  list of records, also when the single row is a \<open>DOOR TYPE\<close> row whose other columns hold
  valid door-type text.
\<close>

theorem short_table_no_doors:
  "length t < 2 \<Longrightarrow> extract_doors_from_table t = []"
  by (simp add: extract_doors_from_table_def)

theorem short_table_no_doors_witness:
  "length [[Some ''DOOR TYPE'', Some ''MD'', Some ''GD'']] < 2
   \<and> row_label [Some ''DOOR TYPE'', Some ''MD'', Some ''GD''] = Some ''DOOR TYPE''
   \<and> parse_door_type ''MD'' = Some (''MD'', [])
   \<and> parse_door_type ''GD'' = Some (''GD'', [])
   \<and> extract_doors_from_table [[Some ''DOOR TYPE'', Some ''MD'', Some ''GD'']] = []"
proof -
  have "length [[Some ''DOOR TYPE'', Some ''MD'', Some ''GD'']] < 2" by simp
  from short_table_no_doors [OF this]
  have "extract_doors_from_table [[Some ''DOOR TYPE'', Some ''MD'', Some ''GD'']] = []" .
  moreover have "row_label [Some ''DOOR TYPE'', Some ''MD'', Some ''GD''] = Some ''DOOR TYPE''"
    by code_simp
  moreover have "parse_door_type ''MD'' = Some (''MD'', [])" by code_simp
  moreover have "parse_door_type ''GD'' = Some (''GD'', [])" by code_simp
  ultimately show ?thesis by simp
qed

section \<open>Exceptions in the table loop\<close>

lemma table_loop_acc: "table_loop ts acc = acc @ table_loop ts []"
proof (induction ts arbitrary: acc)
  case Nil
  show ?case by simp
next
  case (Cons x ts)
  show ?case
  proof (cases x)
    case (Inl e)
    then show ?thesis by simp
  next
    case (Inr t)
    have "table_loop (x # ts) acc = (acc @ valid_doors t) @ table_loop ts []"
      using Inr Cons.IH [of "acc @ valid_doors t"] by simp
    also have "\<dots> = acc @ table_loop (x # ts) []"
      using Inr Cons.IH [of "valid_doors t"] by simp
    finally show ?thesis .
  qed
qed

lemma table_loop_prefix:
  "table_loop ts [] = concat (map (valid_doors \<circ> projr) (takeWhile (Not \<circ> isl) ts))"
proof (induction ts)
  case Nil
  show ?case by simp
next
  case (Cons x ts)
  show ?case
  proof (cases x)
    case (Inl e)
    then show ?thesis by simp
  next
    case (Inr t)
    then show ?thesis
      using Cons.IH table_loop_acc [of ts "valid_doors t"] by simp
  qed
qed

text \<open>
  C2, as the claim states it, fails. The page below has three tables; the second raises.
  The first and the third each hold one valid door. process_page returns the door of the
  first table only: the door \<open>GD\<close> of the third table is not emitted.
\<close>

theorem table_failure_skips_later_tables:
  "process_page
     (Inr [Inr [[Some ''DOOR TYPE'', Some ''MD''], [Some ''REMARKS'', Some ''-'']],
           Inl Exception,
           Inr [[Some ''DOOR TYPE'', Some ''GD''], [Some ''REMARKS'', Some ''-'']]])
     = [make_door ''MD'' [] [] [] [] ''-'']
   \<and> valid_doors [[Some ''DOOR TYPE'', Some ''GD''], [Some ''REMARKS'', Some ''-'']]
     = [make_door ''GD'' [] [] [] [] ''-'']"
  by code_simp

text \<open>
  C2, amended. When a table of a page raises, the valid doors of the tables before it on
  that page are kept, the failing table and every later table of the page contribute
  nothing, and a page whose table extraction raises as a whole contributes nothing; the
  loop over the pages continues with the following pages.
\<close>

theorem page_failure_keeps_earlier_tables:
  "process_page (Inl e) = []
   \<and> process_page (Inr tables) =
       concat (map (valid_doors \<circ> projr) (takeWhile (Not \<circ> isl) tables))
   \<and> process_pages (pages @ p # pages') =
       process_pages pages @ process_page p @ process_pages pages'"
  by (simp add: process_page_def process_pages_def table_loop_prefix)

theorem page_failure_keeps_earlier_tables_witness:
  "process_pages
     [Inr [Inr [[Some ''DOOR TYPE'', Some ''MD''], [Some ''REMARKS'', Some ''-'']],
           Inl Exception,
           Inr [[Some ''DOOR TYPE'', Some ''GD''], [Some ''REMARKS'', Some ''-'']]],
      Inr [Inr [[Some ''DOOR TYPE'', Some ''FDM''], [Some ''REMARKS'', Some ''-'']]]]
   = valid_doors [[Some ''DOOR TYPE'', Some ''MD''], [Some ''REMARKS'', Some ''-'']]
     @ valid_doors [[Some ''DOOR TYPE'', Some ''FDM''], [Some ''REMARKS'', Some ''-'']]"
  using page_failure_keeps_earlier_tables
    [of Exception
        "[Inr [[Some ''DOOR TYPE'', Some ''MD''], [Some ''REMARKS'', Some ''-'']],
          Inl Exception,
          Inr [[Some ''DOOR TYPE'', Some ''GD''], [Some ''REMARKS'', Some ''-'']]]"
        "[]"
        "Inr [Inr [[Some ''DOOR TYPE'', Some ''MD''], [Some ''REMARKS'', Some ''-'']],
              Inl Exception,
              Inr [[Some ''DOOR TYPE'', Some ''GD''], [Some ''REMARKS'', Some ''-'']]]"
        "[Inr [Inr [[Some ''DOOR TYPE'', Some ''FDM''], [Some ''REMARKS'', Some ''-'']]]]"]
    page_failure_keeps_earlier_tables
    [of Exception
        "[Inr [[Some ''DOOR TYPE'', Some ''FDM''], [Some ''REMARKS'', Some ''-'']]]"
        "[]" "Inl Exception" "[]"]
  by (simp add: process_pages_def)

section \<open>The dimensions of a single door\<close>

text \<open>
  C1. The claim is that the dimensions of every emitted record are empty or exactly one
  dimension. On the single-door path parse_door_type stores the whole line when the line
  holds a dimension and does not start with a variant. The table below has one door
  column, \<open>MD\<close> over \<open>SIZE 1250(W)x2240(H)\<close>; the column is not a multi-door column, the
  record passes is_valid_door_entry and is emitted with the dimensions
  \<open>SIZE 1250(W)x2240(H)\<close>, which is neither empty nor a dimension alone. The multi-door
  path keeps the shape (lemma \<open>split_multi_door_column_dimensions\<close>), as does the branch
  of parse_door_type for a line that starts with a variant.
\<close>

theorem single_door_dimensions_whole_line:
  "process_page
     (Inr [Inr [[Some ''DOOR TYPE'', Some (''MD'' @ [NL] @ ''SIZE 1250(W)x2240(H)'')],
                [Some ''FIRE-RATING'', Some ''-'']]])
     = [make_door ''MD'' ''SIZE 1250(W)x2240(H)'' ''-'' [] [] []]
   \<and> has_multiple_doors (''MD'' @ [NL] @ ''SIZE 1250(W)x2240(H)'') = False
   \<and> full_dim ''SIZE 1250(W)x2240(H)'' = False"
  by code_simp

section \<open>The legacy rule of split_multi_door_column\<close>

text \<open>
  C3. The claim is that a text containing \<open>FD1 FD1\<close> for which steps 1 to 5 give no pair is
  handled by the legacy rule. In the text below the first token \<open>X\<close> occurs once on the first
  line, so steps 1 to 5 give no pair; the text contains \<open>FD1 FD1\<close>; the legacy rule on this
  text gives the two records \<open>FD1/6A\<close> and \<open>FD1/8A\<close>. split_multi_door_column returns at
  \<open>if num_doors < 2: return doors\<close> and never reaches the legacy rule: the result is empty,
  and a table with this text in a door column yields no record. No text reaches the legacy
  rule (lemma \<open>split_multi_door_column_main_only\<close>).
\<close>

theorem legacy_rule_not_reached:
  "is_in ''FD1 FD1'' (''X FD1 FD1'' @ [NL] @ ''650(W)x2190(H) 800(W)x2190(H)'' @ [NL] @ ''6A 8A'')
   \<and> count_list (split_ws ''X FD1 FD1'') ''X'' = 1
   \<and> legacy_fd1 (''X FD1 FD1'' @ [NL] @ ''650(W)x2190(H) 800(W)x2190(H)'' @ [NL] @ ''6A 8A'')
        ''a'' ''b'' ''c'' ''d''
      = [make_door ''FD1/6A'' ''650(W)x2190(H)'' ''a'' ''b'' ''c'' ''d'',
         make_door ''FD1/8A'' ''800(W)x2190(H)'' ''a'' ''b'' ''c'' ''d'']
   \<and> split_multi_door_column
        (''X FD1 FD1'' @ [NL] @ ''650(W)x2190(H) 800(W)x2190(H)'' @ [NL] @ ''6A 8A'')
        ''a'' ''b'' ''c'' ''d''
      = []
   \<and> extract_doors_from_table
        [[Some ''DOOR TYPE'',
          Some (''X FD1 FD1'' @ [NL] @ ''650(W)x2190(H) 800(W)x2190(H)'' @ [NL] @ ''6A 8A'')],
         [Some ''REMARKS'', Some ''-'']]
      = []"
  by code_simp

section \<open>The rejections of parse_door_type\<close>

text \<open>
  C4, as the claim states it, fails. In \<open>md FIRE\<close> the first token \<open>md\<close> of the first line has
  no uppercase letter, and parse_door_type returns the code \<open>md\<close>: the test for an uppercase
  letter is made on the whole first line.
\<close>

theorem lowercase_first_token_accepted:
  "hd (split_ws (hd (lines_of ''md FIRE''))) = ''md''
   \<and> has_upper ''md'' = False
   \<and> parse_door_type ''md FIRE'' = Some (''md'', [])"
  by code_simp

text \<open>
  C4, amended. parse_door_type returns no code exactly when there is no non-empty line, or
  the whole first line contains no uppercase letter, or the first token of the first line
  starts with \<open>000(W)\<close>, or the first line contains \<open>PRECINCT\<close>, \<open>DRAWING\<close> or \<open>PROJECT\<close>.
\<close>

theorem parse_door_type_rejects:
  "parse_door_type text = None \<longleftrightarrow>
     (case lines_of text of
        [] \<Rightarrow> True
      | l # ls \<Rightarrow>
          \<not> has_upper l \<or> startswith (hd (split_ws l)) ''000(W)''
          \<or> is_in ''PRECINCT'' l \<or> is_in ''DRAWING'' l \<or> is_in ''PROJECT'' l)"
proof (cases "lines_of text")
  case Nil
  then show ?thesis
    by (simp add: parse_door_type_def)
next
  case (Cons l ls)
  then have ne: "text \<noteq> []"
    using lines_of_Nil by auto
  have "l \<in> set (lines_of text)"
    using Cons by simp
  then have "l \<noteq> []" and "\<not> isspace (hd l)"
    by (rule lines_of_elem)+
  then have "hd (split_ws l) = takeWhile (\<lambda>x. \<not> isspace x) l"
    using split_ws_first by blast
  moreover have "\<forall>c\<in>set ''000(W)''. \<not> isspace c"
    by (simp add: isspace_def)
  ultimately have tok: "startswith (hd (split_ws l)) ''000(W)'' = startswith l ''000(W)''"
    unfolding startswith_def by (simp only: prefix_takeWhile_iff)
  show ?thesis
    unfolding parse_door_type_def Let_def
    using ne Cons tok by (simp split: prod.splits)
qed

theorem parse_door_type_rejects_witness:
  "parse_door_type ''md fire'' = None
   \<and> parse_door_type ''000(W)x2190(H) GD'' = None
   \<and> parse_door_type ''GD PROJECT'' = None
   \<and> parse_door_type '' '' = None
   \<and> parse_door_type ''GD 1'' \<noteq> None"
proof -
  have 1: "lines_of ''md fire'' = [''md fire'']" by code_simp
  have 2: "lines_of ''000(W)x2190(H) GD'' = [''000(W)x2190(H) GD'']" by code_simp
  have 3: "lines_of ''GD PROJECT'' = [''GD PROJECT'']" by code_simp
  have 4: "lines_of '' '' = []" by code_simp
  have 5: "lines_of ''GD 1'' = [''GD 1'']" by code_simp
  have u1: "has_upper ''md fire'' = False" by code_simp
  have u2: "startswith (hd (split_ws ''000(W)x2190(H) GD'')) ''000(W)''" by code_simp
  have u3: "is_in ''PROJECT'' ''GD PROJECT''" by code_simp
  have u5: "has_upper ''GD 1''" "startswith (hd (split_ws ''GD 1'')) ''000(W)'' = False"
    "is_in ''PRECINCT'' ''GD 1'' = False" "is_in ''DRAWING'' ''GD 1'' = False"
    "is_in ''PROJECT'' ''GD 1'' = False"
    by code_simp+
  show ?thesis
    using parse_door_type_rejects [of "''md fire''"]
      parse_door_type_rejects [of "''000(W)x2190(H) GD''"]
      parse_door_type_rejects [of "''GD PROJECT''"]
      parse_door_type_rejects [of "'' ''"]
      parse_door_type_rejects [of "''GD 1''"]
    unfolding 1 2 3 4 5
    using u1 u2 u3 u5 by simp
qed

section \<open>Two doors in one column\<close>

text \<open>
  C5, as the claim states it, fails. The text below is one line: its first token \<open>DB\<close> occurs
  twice among the tokens of the first line and the text holds two dimensions, yet
  split_multi_door_column returns no record, at \<open>if len(lines) < 2: return doors\<close>.
\<close>

theorem single_line_two_doors_not_split:
  "count_list (split_ws (hd (lines_of ''DB DB 900(W)x2190(H) 1000(W)x2190(H)''))) ''DB'' = 2
   \<and> hd (split_ws (hd (lines_of ''DB DB 900(W)x2190(H) 1000(W)x2190(H)''))) = ''DB''
   \<and> findall_dim ''DB DB 900(W)x2190(H) 1000(W)x2190(H)''
       = [''900(W)x2190(H)'', ''1000(W)x2190(H)'']
   \<and> has_multiple_doors ''DB DB 900(W)x2190(H) 1000(W)x2190(H)''
   \<and> split_multi_door_column ''DB DB 900(W)x2190(H) 1000(W)x2190(H)'' ''a'' ''b'' ''c'' ''d''
       = []"
  by code_simp

text \<open>
  C5, amended. For every text with at least two non-empty lines whose first line contains the
  base code (its first token) exactly twice and whose full text contains exactly two
  dimensions, split_multi_door_column yields exactly two records; record \<open>i\<close> carries the
  \<open>i\<close>-th collected dimension (after the repair of a dimension that starts with \<open>000(W)x\<close>),
  the code made of the base code and the \<open>i\<close>-th variant, and the shared fire_rating,
  description, location and remarks.
\<close>

theorem split_two_doors:
  assumes "2 \<le> length (lines_of text)"
    and "count_list (split_ws (hd (lines_of text))) (hd (split_ws (hd (lines_of text)))) = 2"
    and "length (findall_dim text) = 2"
  shows "split_multi_door_column text fr descr loc rem =
           (let lines = lines_of text;
                base_code = hd (split_ws (hd lines));
                all_tokens = concat (map split_ws (tl lines));
                variants = collect_variants 2 lines;
                code = (\<lambda>i. if nth_or_empty variants i \<noteq> []
                             then base_code @ ''/'' @ nth_or_empty variants i else base_code)
            in [make_door (code 0) (repair_dim all_tokens (findall_dim text ! 0))
                  fr descr loc rem,
                make_door (code 1) (repair_dim all_tokens (findall_dim text ! 1))
                  fr descr loc rem])"
proof -
  have parts: "split_ws (hd (lines_of text)) \<noteq> []"
    using assms(2) by auto
  have upt: "[0..<2] = [0, Suc 0]"
    by (simp add: numeral_2_eq_2)
  have "split_multi_door_column text fr descr loc rem =
          main_doors text (lines_of text) (hd (split_ws (hd (lines_of text)))) 2
            fr descr loc rem"
    using assms(1,2) parts
    by (simp add: split_multi_door_column_def Let_def main_doors_def)
  moreover obtain d0 d1 where "findall_dim text = [d0, d1]"
    using assms(3) by (auto simp: numeral_2_eq_2 length_Suc_conv)
  ultimately show ?thesis
    by (simp add: main_doors_def Let_def upt nth_or_empty_def)
qed

theorem split_two_doors_witness:
  "split_multi_door_column
     (''DB DB'' @ [NL] @ ''9 900(W)x2190(H) 10 1 000(W)x2190(H)'') ''a'' ''b'' ''c'' ''d''
   = [make_door ''DB/9'' ''900(W)x2190(H)'' ''a'' ''b'' ''c'' ''d'',
      make_door ''DB/10'' ''1000(W)x2190(H)'' ''a'' ''b'' ''c'' ''d'']"
proof -
  let ?text = "''DB DB'' @ [NL] @ ''9 900(W)x2190(H) 10 1 000(W)x2190(H)''"
  have 1: "2 \<le> length (lines_of ?text)"
    by code_simp
  have 2: "count_list (split_ws (hd (lines_of ?text))) (hd (split_ws (hd (lines_of ?text)))) = 2"
    by code_simp
  have 3: "length (findall_dim ?text) = 2"
    by code_simp
  have rhs:
    "(let lines = lines_of ?text;
          base_code = hd (split_ws (hd lines));
          all_tokens = concat (map split_ws (tl lines));
          variants = collect_variants 2 lines;
          code = (\<lambda>i. if nth_or_empty variants i \<noteq> []
                       then base_code @ ''/'' @ nth_or_empty variants i else base_code)
      in [make_door (code 0) (repair_dim all_tokens (findall_dim ?text ! 0))
            ''a'' ''b'' ''c'' ''d'',
          make_door (code 1) (repair_dim all_tokens (findall_dim ?text ! 1))
            ''a'' ''b'' ''c'' ''d''])
     = [make_door ''DB/9'' ''900(W)x2190(H)'' ''a'' ''b'' ''c'' ''d'',
        make_door ''DB/10'' ''1000(W)x2190(H)'' ''a'' ''b'' ''c'' ''d'']"
    by code_simp
  show ?thesis
    using split_two_doors [OF 1 2 3, of "''a''" "''b''" "''c''" "''d''"] rhs
    by (rule trans)
qed

section \<open>The sections of a table\<close>

lemma filter_upt_two:
  assumes "a < b" and "b < n" and "\<forall>i<n. P i = (i = a \<or> i = b)"
  shows "filter P [0..<n] = [a, b]"
proof -
  have "sorted (filter P [0..<n])" and "distinct (filter P [0..<n])"
    by (simp_all add: sorted_wrt_filter)
  moreover have "sorted [a, b]" and "distinct [a, b]"
    using assms(1) by simp_all
  moreover have "set (filter P [0..<n]) = set [a, b]"
    using assms by auto
  ultimately show ?thesis
    by (blast intro: sorted_distinct_set_unique)
qed

lemma scan_labels_stop:
  "row_label (t ! e) = Some ''ELEVATION'' \<Longrightarrow>
   scan_labels t (xs @ e # ys) f = scan_labels t xs f"
  by (induction xs arbitrary: f) (simp_all split: option.splits)

lemma recorded_rows_update:
  "recorded_rows (f\<lparr>fire_rating_row_idx := Some i\<rparr>) \<subseteq> insert i (recorded_rows f)"
  "recorded_rows (f\<lparr>description_row_idx := Some i\<rparr>) \<subseteq> insert i (recorded_rows f)"
  "recorded_rows (f\<lparr>location_row_idx := Some i\<rparr>) \<subseteq> insert i (recorded_rows f)"
  "recorded_rows (f\<lparr>remarks_row_idx := Some i\<rparr>) \<subseteq> insert i (recorded_rows f)"
  by (auto simp: recorded_rows_def)

lemma scan_labels_recorded:
  "recorded_rows (scan_labels t xs f) \<subseteq> recorded_rows f \<union> set xs"
proof (induction xs arbitrary: f)
  case Nil
  show ?case by simp
next
  case (Cons i xs)
  show ?case
  proof (cases "row_label (t ! i)")
    case None
    then show ?thesis using Cons.IH [of f] by auto
  next
    case (Some label)
    consider (fire) "label = ''FIRE-RATING'' \<or> label = ''FIRE RATING''"
      | (desc) "label = ''DESCRIPTION''"
      | (loc) "label = ''LOCATION''"
      | (rem) "label = ''REMARKS''"
      | (elev) "label = ''ELEVATION''"
      | (other) "label \<notin> {''FIRE-RATING'', ''FIRE RATING'', ''DESCRIPTION'', ''LOCATION'',
                           ''REMARKS'', ''ELEVATION''}"
      by auto
    then show ?thesis
    proof cases
      case fire
      then have "scan_labels t (i # xs) f = scan_labels t xs (f\<lparr>fire_rating_row_idx := Some i\<rparr>)"
        using Some by auto
      then show ?thesis
        using Cons.IH [of "f\<lparr>fire_rating_row_idx := Some i\<rparr>"] recorded_rows_update(1) [where f = f and i = i]
        by auto
    next
      case desc
      then have "scan_labels t (i # xs) f = scan_labels t xs (f\<lparr>description_row_idx := Some i\<rparr>)"
        using Some by simp
      then show ?thesis
        using Cons.IH [of "f\<lparr>description_row_idx := Some i\<rparr>"] recorded_rows_update(2) [where f = f and i = i]
        by auto
    next
      case loc
      then have "scan_labels t (i # xs) f = scan_labels t xs (f\<lparr>location_row_idx := Some i\<rparr>)"
        using Some by simp
      then show ?thesis
        using Cons.IH [of "f\<lparr>location_row_idx := Some i\<rparr>"] recorded_rows_update(3) [where f = f and i = i]
        by auto
    next
      case rem
      then have "scan_labels t (i # xs) f = scan_labels t xs (f\<lparr>remarks_row_idx := Some i\<rparr>)"
        using Some by simp
      then show ?thesis
        using Cons.IH [of "f\<lparr>remarks_row_idx := Some i\<rparr>"] recorded_rows_update(4) [where f = f and i = i]
        by auto
    next
      case elev
      then have "scan_labels t (i # xs) f = f"
        using Some by simp
      then show ?thesis by auto
    next
      case other
      then have "scan_labels t (i # xs) f = scan_labels t xs f"
        using Some by simp
      then show ?thesis using Cons.IH [of f] by auto
    qed
  qed
qed

lemma recorded_no_field_rows: "recorded_rows no_field_rows = {}"
  by (simp add: recorded_rows_def no_field_rows_def)

lemma scan_section_recorded:
  "recorded_rows (scan_labels t [lo..<hi] no_field_rows) \<subseteq> {lo..<hi}"
  using scan_labels_recorded [of t "[lo..<hi]" no_field_rows]
  by (simp add: recorded_no_field_rows)

lemma scan_section_elevation:
  assumes "lo \<le> e" and "e < hi" and "row_label (t ! e) = Some ''ELEVATION''"
  shows "scan_labels t [lo..<hi] f = scan_labels t [lo..<e] f"
proof -
  have "[lo..<hi] = [lo..<e] @ e # [Suc e..<hi]"
    using assms(1,2) by (metis le_Suc_ex less_imp_le_nat upt_add_eq_append upt_conv_Cons)
  then show ?thesis
    using assms(3) by (simp only: scan_labels_stop)
qed

text \<open>
  C6. A table with exactly two rows labelled \<open>DOOR TYPE\<close>, at \<open>a\<close> and \<open>b\<close>, has two sections:
  from \<open>a\<close> to \<open>b\<close> and from \<open>b\<close> to the end of the table. The field rows recorded for a section
  lie inside the section, and a row labelled \<open>ELEVATION\<close> inside a section ends its scan: the
  fields are those found before that row.
\<close>

theorem two_door_type_rows_two_sections:
  assumes "a < b" and "b < length t"
    and "\<forall>i<length t. (row_label (t ! i) = Some ''DOOR TYPE'') = (i = a \<or> i = b)"
  shows "\<exists>fa fb. sections t = [(a, b, fa), (b, length t, fb)]
           \<and> recorded_rows fa \<subseteq> {a..<b} \<and> recorded_rows fb \<subseteq> {b..<length t}
           \<and> (\<forall>e. a \<le> e \<and> e < b \<and> row_label (t ! e) = Some ''ELEVATION'' \<longrightarrow>
                 fa = scan_labels t [a..<e] no_field_rows \<and> recorded_rows fa \<subseteq> {a..<e})
           \<and> (\<forall>e. b \<le> e \<and> e < length t \<and> row_label (t ! e) = Some ''ELEVATION'' \<longrightarrow>
                 fb = scan_labels t [b..<e] no_field_rows \<and> recorded_rows fb \<subseteq> {b..<e})"
proof -
  let ?fa = "scan_labels t [a..<b] no_field_rows"
  let ?fb = "scan_labels t [b..<length t] no_field_rows"
  have idxs: "door_type_row_indices t = [a, b]"
    unfolding door_type_row_indices_def using assms by (rule filter_upt_two)
  have upt: "[0..<2] = [0, Suc 0]"
    by (simp add: numeral_2_eq_2)
  have "sections t = [(a, b, ?fa), (b, length t, ?fb)]"
    by (simp add: sections_def idxs upt resolve_section_def section_end_def Let_def)
  moreover have "recorded_rows ?fa \<subseteq> {a..<b}" and "recorded_rows ?fb \<subseteq> {b..<length t}"
    by (rule scan_section_recorded)+
  moreover have "\<forall>e. a \<le> e \<and> e < b \<and> row_label (t ! e) = Some ''ELEVATION'' \<longrightarrow>
                   ?fa = scan_labels t [a..<e] no_field_rows \<and> recorded_rows ?fa \<subseteq> {a..<e}"
    using scan_section_elevation [of a _ b t no_field_rows] scan_section_recorded [of t a]
    by metis
  moreover have "\<forall>e. b \<le> e \<and> e < length t \<and> row_label (t ! e) = Some ''ELEVATION'' \<longrightarrow>
                   ?fb = scan_labels t [b..<e] no_field_rows \<and> recorded_rows ?fb \<subseteq> {b..<e}"
    using scan_section_elevation [of b _ "length t" t no_field_rows]
      scan_section_recorded [of t b]
    by metis
  ultimately show ?thesis by blast
qed

theorem two_door_type_rows_two_sections_witness:
  "sections
     [[Some ''DOOR TYPE'', Some ''MD''], [Some ''REMARKS'', Some ''-''],
      [Some ''ELEVATION'', None], [Some ''LOCATION'', Some ''x''],
      [Some '' DOOR TYPE'', Some ''GD''], [Some ''FIRE RATING'', Some ''1HR'']]
   = [(0, 4, no_field_rows\<lparr>remarks_row_idx := Some 1\<rparr>),
      (4, 6, no_field_rows\<lparr>fire_rating_row_idx := Some 5\<rparr>)]
   \<and> recorded_rows (no_field_rows\<lparr>remarks_row_idx := Some 1\<rparr>) \<subseteq> {0..<2}
   \<and> recorded_rows (no_field_rows\<lparr>fire_rating_row_idx := Some 5\<rparr>) \<subseteq> {4..<6}"
proof -
  let ?t = "[[Some ''DOOR TYPE'', Some ''MD''], [Some ''REMARKS'', Some ''-''],
      [Some ''ELEVATION'', None], [Some ''LOCATION'', Some ''x''],
      [Some '' DOOR TYPE'', Some ''GD''], [Some ''FIRE RATING'', Some ''1HR'']]"
  have 1: "(0::nat) < 4" and 2: "4 < length ?t"
    by simp_all
  have "list_all (\<lambda>i. (row_label (?t ! i) = Some ''DOOR TYPE'') = (i = 0 \<or> i = 4))
          [0..<length ?t]"
    by code_simp
  then have 3: "\<forall>i<length ?t. (row_label (?t ! i) = Some ''DOOR TYPE'') = (i = 0 \<or> i = 4)"
    unfolding list_all_iff by (metis atLeastLessThan_iff set_upt zero_le)
  have e: "(0::nat) \<le> 2 \<and> (2::nat) < 4 \<and> row_label (?t ! 2) = Some ''ELEVATION''"
    by code_simp
  have v: "sections ?t = [(0, 4, no_field_rows\<lparr>remarks_row_idx := Some 1\<rparr>),
      (4, 6, no_field_rows\<lparr>fire_rating_row_idx := Some 5\<rparr>)]"
    by code_simp
  from two_door_type_rows_two_sections [OF 1 2 3]
  obtain fa fb where s: "sections ?t = [(0, 4, fa), (4, length ?t, fb)]"
    and r: "recorded_rows fb \<subseteq> {4..<length ?t}"
    and el: "\<forall>e. 0 \<le> e \<and> e < 4 \<and> row_label (?t ! e) = Some ''ELEVATION'' \<longrightarrow>
                 fa = scan_labels ?t [0..<e] no_field_rows \<and> recorded_rows fa \<subseteq> {0..<e}"
    by blast
  have fa: "fa = no_field_rows\<lparr>remarks_row_idx := Some 1\<rparr>"
    and fb: "fb = no_field_rows\<lparr>fire_rating_row_idx := Some 5\<rparr>"
    using s v by simp_all
  have "recorded_rows fa \<subseteq> {0..<2}"
    using el e by blast
  moreover have "recorded_rows fb \<subseteq> {4..<6}"
    using r by (simp add: eval_nat_numeral)
  ultimately show ?thesis
    unfolding v fa fb by blast
qed

section \<open>The validation of emitted records\<close>

lemma invalid_patterns_ends:
  "\<forall>m\<in>set invalid_patterns. m \<noteq> [] \<and> \<not> isspace (hd m) \<and> \<not> isspace (last m)"
  by (simp add: invalid_patterns_def isspace_def)

lemma valid_entry_door_type:
  assumes "is_valid_door_entry d"
  shows "has_upper (door_type d)"
    and "\<forall>m\<in>set invalid_patterns. \<not> is_in m (upper (door_type d))"
    and "\<not> startswith (door_type d) ''000(W)x''"
    and "\<not> full_dim (door_type d)"
proof -
  let ?dt = "strip (door_type d)"
  have pat: "\<not> list_ex (\<lambda>pattern. is_in pattern (upper ?dt)) invalid_patterns"
    and sw: "\<not> startswith ?dt ''000(W)x''"
    and an: "\<not> match_dim_anchored ?dt"
    and up: "has_upper ?dt"
    using assms by (auto simp: is_valid_door_entry_def Let_def split: if_splits)
  show "has_upper (door_type d)"
    using up by (rule has_upper_strip)
  show "\<forall>m\<in>set invalid_patterns. \<not> is_in m (upper (door_type d))"
  proof
    fix m
    assume m: "m \<in> set invalid_patterns"
    then have e: "m \<noteq> []" "\<not> isspace (hd m)" "\<not> isspace (last m)"
      using invalid_patterns_ends by blast+
    have "\<not> is_in m (upper ?dt)"
      using pat m by (auto simp: list_ex_iff)
    then show "\<not> is_in m (upper (door_type d))"
      using is_in_upper_strip [OF _ e] by blast
  qed
  have "\<not> isspace (hd ''000(W)x'')" and "\<not> isspace (last ''000(W)x'')"
    by (simp_all add: isspace_def)
  then show "\<not> startswith (door_type d) ''000(W)x''"
    using sw startswith_strip [of "door_type d" "''000(W)x''"] by auto
  show "\<not> full_dim (door_type d)"
  proof
    assume f: "full_dim (door_type d)"
    then have "?dt = door_type d" by (rule full_dim_strip)
    then show False
      using an f full_dim_anchored by simp
  qed
qed

lemma process_page_valid:
  assumes "d \<in> set (process_page p)"
  shows "is_valid_door_entry d"
proof (cases p)
  case (Inl e)
  then show ?thesis using assms by (simp add: process_page_def)
next
  case (Inr tables)
  then have "d \<in> set (table_loop tables [])"
    using assms by (simp add: process_page_def split: if_splits)
  then have "\<exists>t. d \<in> set (valid_doors t)"
    by (auto simp: table_loop_prefix)
  then show ?thesis by (auto simp: valid_doors_def)
qed

text \<open>
  C7. Every record emitted by the loop over the pages has passed is_valid_door_entry; its
  door_type contains an uppercase letter, the uppercased door_type contains none of the
  metadata markers, and the door_type neither starts with \<open>000(W)x\<close> nor is a dimension and
  nothing else.
\<close>

theorem emitted_door_type_validated:
  assumes "d \<in> set (process_pages pages)"
  shows "is_valid_door_entry d \<and> has_upper (door_type d)
         \<and> (\<forall>m\<in>set invalid_patterns. \<not> is_in m (upper (door_type d)))
         \<and> \<not> startswith (door_type d) ''000(W)x'' \<and> \<not> full_dim (door_type d)"
proof -
  from assms obtain p where "d \<in> set (process_page p)"
    by (auto simp: process_pages_def)
  then have "is_valid_door_entry d"
    by (rule process_page_valid)
  then show ?thesis
    using valid_entry_door_type [of d] by blast
qed

theorem emitted_door_type_validated_witness:
  "process_pages
     [Inr [Inr [[Some ''DOOR TYPE'', Some ''MD'', Some ''DATE 1'', Some ''1000(W)x2190(H)''],
                [Some ''REMARKS'', Some ''-'']]]]
     = [make_door ''MD'' ''1000(W)x2190(H)'' [] [] [] ''-'']
   \<and> is_valid_door_entry (make_door ''MD'' ''1000(W)x2190(H)'' [] [] [] ''-'')
   \<and> has_upper ''MD''
   \<and> list_all (\<lambda>m. \<not> is_in m (upper ''MD'')) invalid_patterns
   \<and> startswith ''MD'' ''000(W)x'' = False
   \<and> full_dim ''MD'' = False"
proof -
  have e: "process_pages
     [Inr [Inr [[Some ''DOOR TYPE'', Some ''MD'', Some ''DATE 1'', Some ''1000(W)x2190(H)''],
                [Some ''REMARKS'', Some ''-'']]]]
     = [make_door ''MD'' ''1000(W)x2190(H)'' [] [] [] ''-'']"
    by code_simp
  then have "make_door ''MD'' ''1000(W)x2190(H)'' [] [] [] ''-'' \<in> set (process_pages
     [Inr [Inr [[Some ''DOOR TYPE'', Some ''MD'', Some ''DATE 1'', Some ''1000(W)x2190(H)''],
                [Some ''REMARKS'', Some ''-'']]]])"
    by simp
  from emitted_door_type_validated [OF this] e show ?thesis
    by (simp add: make_door_def list_all_iff)
qed

section \<open>The continuation merge\<close>

lemma is_continuation_iff:
  "is_continuation c = (case c of None \<Rightarrow> False | Some t \<Rightarrow> full_dim (strip t))"
proof (cases c)
  case None
  then show ?thesis by (simp add: is_continuation_def)
next
  case (Some t)
  have "full_dim (strip t) \<Longrightarrow> strip t \<noteq> [] \<and> t \<noteq> []"
    using strip_Nil by (auto simp: full_dim_def match_dim_def)
  then show ?thesis
    using Some anchored_strip_iff [of t] by (auto simp: is_continuation_def)
qed

text \<open>
  C8. The merge looks at the two columns after the current one and no further. It appends a
  space and the text of the first of them whose trimmed text is a dimension and nothing
  else, and then stops; when neither is, the door type text is unchanged, whatever later
  columns hold.
\<close>

theorem merge_continuation_window:
  "merge_continuation row col txt (col + 1) =
     (if col + 1 < length row
         \<and> (case row ! (col + 1) of None \<Rightarrow> False | Some t \<Rightarrow> full_dim (strip t))
      then txt @ '' '' @ the (row ! (col + 1))
      else if col + 2 < length row
         \<and> (case row ! (col + 2) of None \<Rightarrow> False | Some t \<Rightarrow> full_dim (strip t))
      then txt @ '' '' @ the (row ! (col + 2))
      else txt)"
proof -
  have 3: "merge_continuation row col txt (col + 3) = txt"
    by (subst merge_continuation.simps) simp
  have 2: "merge_continuation row col txt (col + 2) =
             (if col + 2 < length row \<and> is_continuation (row ! (col + 2))
              then txt @ '' '' @ the (row ! (col + 2)) else txt)"
    using 3 by (subst merge_continuation.simps) (simp add: numeral_3_eq_3 numeral_2_eq_2)
  have 1: "merge_continuation row col txt (col + 1) =
             (if col + 1 < length row \<and> is_continuation (row ! (col + 1))
              then txt @ '' '' @ the (row ! (col + 1))
              else merge_continuation row col txt (col + 2))"
    by (subst merge_continuation.simps) (auto simp: numeral_2_eq_2 2)
  show ?thesis
    unfolding 1 2 is_continuation_iff by simp
qed

theorem merge_continuation_window_witness:
  "merge_continuation
     [Some ''DOOR TYPE'', Some ''GD 2'', Some ''X'', Some '' 000(W)x2190(H) '', Some ''1(W)x2(H)'']
     1 ''GD 2'' 2 = ''GD 2  000(W)x2190(H) ''
   \<and> merge_continuation
     [Some ''DOOR TYPE'', Some ''GD'', Some ''A 1(W)x2(H)'', None, Some ''1(W)x2(H)'']
     1 ''GD'' 2 = ''GD''"
proof -
  have a: "full_dim (strip ''X'') = False" "full_dim (strip '' 000(W)x2190(H) '')"
    "full_dim (strip ''A 1(W)x2(H)'') = False"
    by code_simp+
  show ?thesis
    using merge_continuation_window
      [of "[Some ''DOOR TYPE'', Some ''GD 2'', Some ''X'', Some '' 000(W)x2190(H) '',
            Some ''1(W)x2(H)'']" 1 "''GD 2''"]
      merge_continuation_window
      [of "[Some ''DOOR TYPE'', Some ''GD'', Some ''A 1(W)x2(H)'', None, Some ''1(W)x2(H)'']"
          1 "''GD''"]
    by (simp add: a numeral_2_eq_2 del: merge_continuation.simps)
qed

section \<open>Multi-door columns\<close>

text \<open>
  C9. When the multi-door test holds for the merged text of a column, the code and the
  dimensions that parse_door_type returned are not used: the records of the column are
  those of split_multi_door_column. There are texts, such as the single line \<open>DB DB\<close>, for
  which parse_door_type returns a code that is_valid_door_entry accepts and the column
  emits no record.
\<close>

theorem multi_door_column_uses_splitter:
  "(t ! a ! col = Some cell_text \<and> strip cell_text \<noteq> []
      \<and> \<not> is_in ''TENDER DRAWING'' cell_text \<and> \<not> is_in ''DRAWING TITLE'' cell_text
      \<and> txt = merge_continuation (t ! a) col cell_text (col + 1)
      \<and> parse_door_type txt = Some (code, dims) \<and> has_multiple_doors txt
    \<longrightarrow> column_doors t (a, e, f) col =
          split_multi_door_column txt
            (field_text (field_row t (fire_rating_row_idx f)) col)
            (field_text (field_row t (description_row_idx f)) col)
            (field_text (field_row t (location_row_idx f)) col)
            (field_text (field_row t (remarks_row_idx f)) col))
   \<and> (\<exists>txt code dims. parse_door_type txt = Some (code, dims)
         \<and> is_valid_door_entry (make_door code dims [] [] [] [])
         \<and> has_multiple_doors txt
         \<and> split_multi_door_column txt [] [] [] [] = []
         \<and> extract_doors_from_table [[Some ''DOOR TYPE'', Some txt], [Some ''REMARKS'', None]]
             = [])"
proof (intro conjI impI)
  assume h: "t ! a ! col = Some cell_text \<and> strip cell_text \<noteq> []
      \<and> \<not> is_in ''TENDER DRAWING'' cell_text \<and> \<not> is_in ''DRAWING TITLE'' cell_text
      \<and> txt = merge_continuation (t ! a) col cell_text (col + 1)
      \<and> parse_door_type txt = Some (code, dims) \<and> has_multiple_doors txt"
  then have ne: "cell_text \<noteq> []"
    using strip_Nil by auto
  have eq: "merge_continuation (t ! a) col cell_text (Suc col) = txt"
    using h by simp
  have code: "code \<noteq> []"
    using h parse_door_type_code_nonempty by blast
  show "column_doors t (a, e, f) col =
          split_multi_door_column txt
            (field_text (field_row t (fire_rating_row_idx f)) col)
            (field_text (field_row t (description_row_idx f)) col)
            (field_text (field_row t (location_row_idx f)) col)
            (field_text (field_row t (remarks_row_idx f)) col)"
    using h ne code unfolding column_doors_def Let_def
    by (simp add: eq del: merge_continuation.simps)
next
  have "parse_door_type ''DB DB'' = Some (''DB'', [])"
    and "is_valid_door_entry (make_door ''DB'' [] [] [] [] [])"
    and "has_multiple_doors ''DB DB''"
    and "split_multi_door_column ''DB DB'' [] [] [] [] = []"
    and "extract_doors_from_table [[Some ''DOOR TYPE'', Some ''DB DB''], [Some ''REMARKS'', None]]
           = []"
    by code_simp+
  then show "\<exists>txt code dims. parse_door_type txt = Some (code, dims)
         \<and> is_valid_door_entry (make_door code dims [] [] [] [])
         \<and> has_multiple_doors txt
         \<and> split_multi_door_column txt [] [] [] [] = []
         \<and> extract_doors_from_table [[Some ''DOOR TYPE'', Some txt], [Some ''REMARKS'', None]]
             = []"
    by blast
qed

theorem multi_door_column_uses_splitter_witness:
  "column_doors [[Some ''DOOR TYPE'', Some ''DB DB''], [Some ''REMARKS'', Some ''-'']]
     (0, 2, no_field_rows\<lparr>remarks_row_idx := Some 1\<rparr>) 1
   = split_multi_door_column ''DB DB'' [] [] [] ''-''
   \<and> parse_door_type ''DB DB'' = Some (''DB'', [])
   \<and> split_multi_door_column ''DB DB'' [] [] [] ''-'' = []"
proof -
  let ?t = "[[Some ''DOOR TYPE'', Some ''DB DB''], [Some ''REMARKS'', Some ''-'']]"
  have m: "merge_continuation (?t ! 0) 1 ''DB DB'' (1 + 1) = ''DB DB''"
    by code_simp
  have p: "parse_door_type ''DB DB'' = Some (''DB'', [])"
    and h: "has_multiple_doors ''DB DB''"
    and s: "strip ''DB DB'' \<noteq> []"
    and i: "\<not> is_in ''TENDER DRAWING'' ''DB DB''" "\<not> is_in ''DRAWING TITLE'' ''DB DB''"
    and z: "split_multi_door_column ''DB DB'' [] [] [] ''-'' = []"
    by code_simp+
  have ft: "field_text (field_row ?t None) (Suc 0) = []"
    "field_text (field_row ?t (Some (Suc 0))) (Suc 0) = ''-''"
    by code_simp+
  have c: "?t ! 0 ! 1 = Some ''DB DB''"
    by simp
  show ?thesis
    using multi_door_column_uses_splitter
      [of ?t 0 1 "''DB DB''" "''DB DB''" "''DB''" "[]" 2
          "no_field_rows\<lparr>remarks_row_idx := Some 1\<rparr>"]
      c m p h s i z
    by (simp add: no_field_rows_def ft del: merge_continuation.simps)
qed

end
